theory Spec2Isabelle
  imports Main "HOL-Library.Word"
begin

section \<open>The document tree: yaml.Node values in a store\<close>

text \<open>
  The merge engine of \<^verbatim>\<open>internal/yaml\<close> works on \<^verbatim>\<open>*yaml.Node\<close> pointers and mutates the
  nodes in place. A pointer is an address into a store; the store is a list of nodes and
  an address is an index into it. \<^verbatim>\<open>&yaml.Node{...}\<close> allocates at the end of the store.
\<close>

type_synonym addr = nat

text \<open>
  Go's \<^verbatim>\<open>int\<close>, on a 64-bit platform: \<open>+\<close> and \<open>-\<close> wrap around, \<open>sint\<close> reads the value, and
  the comparisons of the source are comparisons of \<open>sint\<close>.
\<close>

type_synonym goint = "64 word"

datatype kind = ZeroKind | DocumentNode | SequenceNode | MappingNode | ScalarNode | AliasNode

record node =
  Kind :: kind
  Style :: "8 word"
  Tag :: string
  Value :: string
  Anchor :: string
  Alias :: "addr option"
  Content :: "addr list"
  HeadComment :: string
  LineComment :: string
  FootComment :: string
  Line :: goint
  Column :: goint

type_synonym heap = "node list"

text \<open>The zero value \<^verbatim>\<open>yaml.Node{}\<close>. A nil \<^verbatim>\<open>Content\<close> slice and an empty one are both \<open>[]\<close>.\<close>

definition zeroNode :: node where
  "zeroNode = \<lparr>Kind = ZeroKind, Style = 0, Tag = [], Value = [], Anchor = [], Alias = None,
     Content = [], HeadComment = [], LineComment = [], FootComment = [], Line = 0, Column = 0\<rparr>"

section \<open>The merged value, as reflection sees it\<close>

text \<open>
  A \<^verbatim>\<open>reflect.Value\<close> by kind. \<open>VInt\<close> covers Int, Int8 .. Int64 (read by \<^verbatim>\<open>value.Int()\<close>, an
  int64). A float carries its \<^verbatim>\<open>%g\<close> text. \<open>VUint\<close> covers the unsigned kinds Uint, Uint8 ..
  Uint64 and Uintptr, of a type with no formatting method of its own: the switch of
  \<^verbatim>\<open>updateNode\<close> has no case for them, they reach its last default, where \<^verbatim>\<open>%v\<close> prints the
  number in decimal. \<open>VOther\<close> is any other kind sent to that default (complex numbers,
  channels, functions, a type with a formatting method), carrying its \<^verbatim>\<open>%v\<close> text; \<open>VPtr\<close> is
  a pointer with its \<^verbatim>\<open>%v\<close> text and what it points to.
  \<open>VIface\<close> is an interface-typed value, nil or holding a value. A struct lists its fields
  in declared order: name, the result of \<^verbatim>\<open>Tag.Get("yaml")\<close>, whether the field is exported,
  and its value. A map says whether its key type has kind String and lists its entries in
  the order the iteration of this run visits them, each key as its text (\<^verbatim>\<open>key.String()\<close>
  for a string key, its \<^verbatim>\<open>%v\<close> text otherwise).
\<close>

datatype gval =
    VInt "64 word"
  | VFloat string
  | VBool bool
  | VString string
  | VUint "64 word"
  | VOther string
  | VPtr string "gval option"
  | VIface "gval option"
  | VStruct "field list"
  | VSlice "gval list"
  | VMap bool "(string \<times> gval) list"
and field = Field (fieldName: string) (fieldTag: string) (fieldExported: bool) (fieldValue: gval)

section \<open>Results\<close>

datatype merr =
    DocumentChildCount
  | MapKeyNotString
  | DataNotStructOrMap
  | FieldError string merr
  | MapValueError string merr
  | SequenceElemError nat merr
  | MappingValueError merr

datatype crash = IndexOutOfRange | UnexportedField | StackOverflow

text \<open>
  A call returns nil (\<open>Ok\<close>, with what it computed and the store it leaves), returns an
  error (\<open>Err\<close>, with the store as mutated so far), or panics.
\<close>

datatype 'a res = Ok 'a heap | Err merr heap | Panic crash

section \<open>Formatting and indentation\<close>

text \<open>\<^verbatim>\<open>fmt.Sprintf("%d", n)\<close>: decimal digits, most significant first, a minus sign if negative.\<close>

definition digitChar :: "nat \<Rightarrow> char" where
  "digitChar d = ''0123456789'' ! d"

fun digits :: "nat \<Rightarrow> string" where
  "digits n = (if n < 10 then [digitChar n] else digits (n div 10) @ [digitChar (n mod 10)])"

declare digits.simps [simp del]

definition fmtDecimal :: "int \<Rightarrow> string" where
  "fmtDecimal i = (if i < 0 then CHR ''-'' # digits (nat (- i)) else digits (nat i))"

definition fmtBool :: "bool \<Rightarrow> string" where
  "fmtBool b = (if b then ''true'' else ''false'')"

text \<open>\<^verbatim>\<open>bytes.Split(content, "\n")\<close>.\<close>

fun splitLines :: "string \<Rightarrow> string list" where
  "splitLines [] = [[]]"
| "splitLines (c # cs) =
     (if c = CHR 0x0A then [] # splitLines cs
      else (case splitLines cs of l # ls \<Rightarrow> (c # l) # ls | [] \<Rightarrow> [[c]]))"

fun detectLines :: "string list \<Rightarrow> goint" where
  "detectLines [] = 2"
| "detectLines (line # lines) =
     (if length line = 0 \<or> hd line \<noteq> CHR '' '' then detectLines lines
      else let spaces = (of_nat (length (takeWhile (\<lambda>ch. ch = CHR '' '') line)) :: goint)
           in if sint spaces > 0 then spaces else detectLines lines)"

definition detectIndentation :: "string \<Rightarrow> goint" where
  "detectIndentation content = detectLines (splitLines content)"

section \<open>The merge engine\<close>

subsection \<open>adjustNodeColumns\<close>

text \<open>
  The recursion follows \<^verbatim>\<open>Content\<close>; on a store with a cycle it never ends in the source.
  The first argument bounds the depth of the recursion: \<open>None\<close> says the bound was reached.
\<close>

fun adjustNodeColumns :: "nat \<Rightarrow> addr \<Rightarrow> goint \<Rightarrow> heap \<Rightarrow> heap option"
and adjustChildren :: "nat \<Rightarrow> addr list \<Rightarrow> goint \<Rightarrow> heap \<Rightarrow> heap option" where
  "adjustNodeColumns 0 node offset h = None"
| "adjustNodeColumns (Suc depth) node offset h =
     (let h1 = (if sint (Column (h ! node)) > sint offset
                then h[node := (h ! node)\<lparr>Column := Column (h ! node) - offset\<rparr>] else h)
      in adjustChildren depth (Content (h1 ! node)) offset h1)"
| "adjustChildren depth [] offset h = Some h"
| "adjustChildren depth (child # rest) offset h =
     (case adjustNodeColumns depth child offset h of
        None \<Rightarrow> None
      | Some h1 \<Rightarrow> adjustChildren depth rest offset h1)"

subsection \<open>Looking up a pair, creating nodes\<close>

datatype found = Found addr addr | NotFound | FindPanic

text \<open>
  The scan \<^verbatim>\<open>for i := 0; i < len(c); i += 2\<close> of \<^verbatim>\<open>findNodes\<close> and \<^verbatim>\<open>createOrReusePair\<close>: the
  first even position whose node has the key as \<^verbatim>\<open>Value\<close>. Reading \<^verbatim>\<open>c[i+1]\<close> past the end
  panics.
\<close>

fun scanPairs :: "heap \<Rightarrow> addr list \<Rightarrow> string \<Rightarrow> found" where
  "scanPairs h [] key = NotFound"
| "scanPairs h [k] key = (if Value (h ! k) = key then FindPanic else NotFound)"
| "scanPairs h (k # v # rest) key =
     (if Value (h ! k) = key then Found k v else scanPairs h rest key)"

definition findNodes :: "heap \<Rightarrow> addr \<Rightarrow> string \<Rightarrow> found" where
  "findNodes h mappingNode key = scanPairs h (Content (h ! mappingNode)) key"

text \<open>
  The not-found branch of \<^verbatim>\<open>updateField\<close> (and of the map case of \<^verbatim>\<open>updateYamlFromStruct\<close>):
  two new nodes, styled after the first pair or placed at the parent's column plus 2,
  appended to the mapping. \<open>None\<close> is the panic of \<^verbatim>\<open>Content[1]\<close> on a one-element list.
\<close>

definition appendPair :: "addr \<Rightarrow> string \<Rightarrow> heap \<Rightarrow> ((addr \<times> addr) \<times> heap) option" where
  "appendPair mappingNode key h =
     (let keyNode = zeroNode\<lparr>Kind := ScalarNode, Tag := ''!!str'', Value := key\<rparr>;
          valueNode = zeroNode;
          cs = Content (h ! mappingNode);
          ka = length h; va = Suc (length h)
      in if length cs > 0 then
           (if length cs < 2 then None
            else let keyNode' = keyNode\<lparr>Style := Style (h ! (cs ! 0)), Column := Column (h ! (cs ! 0))\<rparr>;
                     valueNode' = valueNode\<lparr>Style := Style (h ! (cs ! 1)), Column := Column (h ! (cs ! 1))\<rparr>;
                     h1 = h @ [keyNode', valueNode']
                 in Some ((ka, va), h1[mappingNode := (h1 ! mappingNode)\<lparr>Content := cs @ [ka, va]\<rparr>]))
         else
           (let keyNode' = keyNode\<lparr>Column := Column (h ! mappingNode) + 2\<rparr>;
                valueNode' = valueNode\<lparr>Column := Column (h ! mappingNode) + 2\<rparr>;
                h1 = h @ [keyNode', valueNode']
            in Some ((ka, va), h1[mappingNode := (h1 ! mappingNode)\<lparr>Content := cs @ [ka, va]\<rparr>])))"

definition createOrReuseNode :: "addr \<Rightarrow> nat \<Rightarrow> addr list \<Rightarrow> goint \<Rightarrow> heap \<Rightarrow> addr \<times> heap" where
  "createOrReuseNode node index originalContent baseIndent h =
     (if index < length originalContent then (originalContent ! index, h)
      else let elemNode = zeroNode in
        if length originalContent > 0 then
          (let lastNode = h ! (originalContent ! (length originalContent - 1))
           in (length h, h @ [elemNode\<lparr>Style := Style lastNode, Column := Column lastNode,
                                        Line := Line lastNode\<rparr>]))
        else (length h, h @ [elemNode\<lparr>Column := Column (h ! node) + baseIndent\<rparr>]))"

text \<open>\<open>None\<close> is the panic of an index out of range (\<^verbatim>\<open>c[i+1]\<close>, or \<^verbatim>\<open>c[len(c)-2]\<close> when
  \<^verbatim>\<open>len(c)\<close> is 1).\<close>

definition createOrReusePair ::
  "addr \<Rightarrow> string \<Rightarrow> addr list \<Rightarrow> goint \<Rightarrow> heap \<Rightarrow> ((addr \<times> addr) \<times> heap) option" where
  "createOrReusePair node key originalContent baseIndent h =
     (case scanPairs h originalContent key of
        Found k v \<Rightarrow> Some ((k, v), h)
      | FindPanic \<Rightarrow> None
      | NotFound \<Rightarrow>
          (let keyNode = zeroNode\<lparr>Kind := ScalarNode, Value := key, Tag := ''!!str''\<rparr>;
               valueNode = zeroNode;
               n = length originalContent
           in if n > 0 then
                (if n < 2 then None
                 else let lastKey = h ! (originalContent ! (n - 2));
                          lastValue = h ! (originalContent ! (n - 1))
                      in Some ((length h, Suc (length h)),
                           h @ [keyNode\<lparr>Style := Style lastKey, Column := Column lastKey, Line := Line lastKey\<rparr>,
                                valueNode\<lparr>Style := Style lastValue, Column := Column lastValue,
                                           Line := Line lastValue\<rparr>]))
              else Some ((length h, Suc (length h)),
                     h @ [keyNode\<lparr>Column := Column (h ! node) + baseIndent\<rparr>,
                          valueNode\<lparr>Column := Column (h ! node) + baseIndent\<rparr>])))"

subsection \<open>Pieces of updateYamlFromStruct and updateNode\<close>

text \<open>\<^verbatim>\<open>reflect.ValueOf(data)\<close>: the dynamic value of the interface, \<open>None\<close> (the invalid
  Value) for nil; then one pointer is followed.\<close>

fun ValueOf :: "gval \<Rightarrow> gval option" where
  "ValueOf (VIface None) = None"
| "ValueOf (VIface (Some v)) = ValueOf v"
| "ValueOf v = Some v"

fun ptrElem :: "gval option \<Rightarrow> gval option" where
  "ptrElem (Some (VPtr t p)) = p"
| "ptrElem val = val"

datatype unwrapped = Unwrapped addr heap | BadDocument | Endless

text \<open>Lines 136 to 146: a Document node is replaced by its single child, whose column
  becomes 0 and whose subtree is shifted by the child's old column.\<close>

definition unwrapDocument :: "addr \<Rightarrow> heap \<Rightarrow> unwrapped" where
  "unwrapDocument node h =
     (if Kind (h ! node) = DocumentNode then
        (if length (Content (h ! node)) \<noteq> 1 then BadDocument
         else let mappingNode = Content (h ! node) ! 0;
                  rootOffset = Column (h ! mappingNode);
                  h1 = h[node := (h ! node)\<lparr>Column := 0\<rparr>];
                  h2 = h1[mappingNode := (h1 ! mappingNode)\<lparr>Column := 0\<rparr>]
              in case adjustNodeColumns (length h2) mappingNode rootOffset h2 of
                   None \<Rightarrow> Endless
                 | Some h3 \<Rightarrow> Unwrapped mappingNode h3)
      else Unwrapped node h)"

text \<open>Lines 148 to 154.\<close>

definition asMapping :: "addr \<Rightarrow> heap \<Rightarrow> heap" where
  "asMapping mappingNode h =
     (if Kind (h ! mappingNode) \<noteq> MappingNode
      then h[mappingNode := (h ! mappingNode)\<lparr>Kind := MappingNode, Tag := ''!!map''\<rparr>]
      else h)"

definition setScalar :: "addr \<Rightarrow> string \<Rightarrow> string \<Rightarrow> heap \<Rightarrow> heap" where
  "setScalar node tag text h = h[node := (h ! node)\<lparr>Kind := ScalarNode, Tag := tag, Value := text\<rparr>]"

text \<open>The last two assignments of \<^verbatim>\<open>updateNode\<close>.\<close>

definition restore :: "addr \<Rightarrow> 8 word \<Rightarrow> goint \<Rightarrow> heap \<Rightarrow> heap" where
  "restore node originalStyle originalColumn h =
     h[node := (h ! node)\<lparr>Style := originalStyle, Column := originalColumn\<rparr>]"

text \<open>The first lines of \<^verbatim>\<open>updateSequence\<close> and \<^verbatim>\<open>updateMapping\<close>, and their last three.\<close>

definition retag :: "addr \<Rightarrow> kind \<Rightarrow> string \<Rightarrow> heap \<Rightarrow> heap" where
  "retag node k tag h = h[node := (h ! node)\<lparr>Kind := k, Tag := tag\<rparr>]"

definition baseIndentOf :: "addr \<Rightarrow> addr list \<Rightarrow> heap \<Rightarrow> goint" where
  "baseIndentOf node originalContent h =
     (if length originalContent > 0 then Column (h ! (originalContent ! 0)) - Column (h ! node) else 2)"

definition finish :: "addr \<Rightarrow> addr list \<Rightarrow> 8 word \<Rightarrow> goint \<Rightarrow> heap \<Rightarrow> heap" where
  "finish node newContent originalStyle originalColumn h =
     h[node := (h ! node)\<lparr>Content := newContent, Style := originalStyle, Column := originalColumn\<rparr>]"

lemma ValueOf_size: "ValueOf d = Some v \<Longrightarrow> size v \<le> size d"
  by (induction d rule: ValueOf.induct) auto

lemma ptrElem_size: "ptrElem x = Some v \<Longrightarrow> \<exists>d. x = Some d \<and> size v \<le> size d"
  by (cases x rule: ptrElem.cases) auto

lemma top_size: "ptrElem (ValueOf d) = Some v \<Longrightarrow> size v \<le> size d"
  using ValueOf_size ptrElem_size by (metis le_trans)

subsection \<open>The recursion\<close>

text \<open>
  The flag \<open>ro\<close> of \<open>updateNode\<close> says that the value was reached through an unexported
  struct field: \<^verbatim>\<open>value.Interface()\<close> panics on such a value, the other readers do not.
\<close>

function (sequential) updateNode :: "bool \<Rightarrow> addr \<Rightarrow> gval \<Rightarrow> heap \<Rightarrow> unit res"
and updateYamlFromStruct :: "addr \<Rightarrow> gval \<Rightarrow> heap \<Rightarrow> unit res"
and structLoop :: "addr \<Rightarrow> field list \<Rightarrow> heap \<Rightarrow> unit res"
and updateField :: "addr \<Rightarrow> field \<Rightarrow> heap \<Rightarrow> unit res"
and mapLoop :: "addr \<Rightarrow> (string \<times> gval) list \<Rightarrow> heap \<Rightarrow> unit res"
and updateSequence :: "bool \<Rightarrow> addr \<Rightarrow> gval list \<Rightarrow> heap \<Rightarrow> unit res"
and seqLoop :: "bool \<Rightarrow> addr \<Rightarrow> nat \<Rightarrow> gval list \<Rightarrow> addr list \<Rightarrow> goint \<Rightarrow> addr list \<Rightarrow> heap \<Rightarrow> addr list res"
and updateMapping :: "bool \<Rightarrow> addr \<Rightarrow> (string \<times> gval) list \<Rightarrow> heap \<Rightarrow> unit res"
and mappingLoop :: "bool \<Rightarrow> addr \<Rightarrow> (string \<times> gval) list \<Rightarrow> addr list \<Rightarrow> goint \<Rightarrow> addr list \<Rightarrow> heap \<Rightarrow> addr list res"
where
  "updateNode ro node (VIface (Some v)) h = updateNode ro node v h"
| "updateNode ro node (VIface None) h =
     Ok () (restore node (Style (h ! node)) (Column (h ! node)) h)"
| "updateNode ro node (VStruct fs) h =
     (if ro then Panic UnexportedField
      else case updateYamlFromStruct node (VStruct fs) h of
             Panic c \<Rightarrow> Panic c
           | Err e h1 \<Rightarrow> Err e h1
           | Ok u h1 \<Rightarrow> Ok () (restore node (Style (h ! node)) (Column (h ! node)) h1))"
| "updateNode ro node (VSlice vs) h =
     (case updateSequence ro node vs h of
        Panic c \<Rightarrow> Panic c
      | Err e h1 \<Rightarrow> Err e h1
      | Ok u h1 \<Rightarrow> Ok () (restore node (Style (h ! node)) (Column (h ! node)) h1))"
| "updateNode ro node (VMap ks es) h =
     (case updateMapping ro node es h of
        Panic c \<Rightarrow> Panic c
      | Err e h1 \<Rightarrow> Err e h1
      | Ok u h1 \<Rightarrow> Ok () (restore node (Style (h ! node)) (Column (h ! node)) h1))"
| "updateNode ro node (VInt i) h =
     Ok () (restore node (Style (h ! node)) (Column (h ! node))
             (setScalar node ''!!int'' (fmtDecimal (sint i)) h))"
| "updateNode ro node (VFloat t) h =
     Ok () (restore node (Style (h ! node)) (Column (h ! node)) (setScalar node ''!!float'' t h))"
| "updateNode ro node (VBool b) h =
     Ok () (restore node (Style (h ! node)) (Column (h ! node)) (setScalar node ''!!bool'' (fmtBool b) h))"
| "updateNode ro node (VString s) h =
     Ok () (restore node (Style (h ! node)) (Column (h ! node)) (setScalar node ''!!str'' s h))"
| "updateNode ro node (VOther t) h =
     (if ro then Panic UnexportedField
      else Ok () (restore node (Style (h ! node)) (Column (h ! node)) (setScalar node ''!!str'' t h)))"
| "updateNode ro node (VPtr t p) h =
     (if ro then Panic UnexportedField
      else Ok () (restore node (Style (h ! node)) (Column (h ! node)) (setScalar node ''!!str'' t h)))"
| "updateNode ro node (VUint n) h =
     (if ro then Panic UnexportedField
      else Ok () (restore node (Style (h ! node)) (Column (h ! node))
                   (setScalar node ''!!str'' (fmtDecimal (uint n)) h)))"

| "updateYamlFromStruct node data h =
     (case unwrapDocument node h of
        BadDocument \<Rightarrow> Err DocumentChildCount h
      | Endless \<Rightarrow> Panic StackOverflow
      | Unwrapped mappingNode h1 \<Rightarrow>
          (let h2 = asMapping mappingNode h1
           in case ptrElem (ValueOf data) of
                Some (VStruct fs) \<Rightarrow> structLoop mappingNode fs h2
              | Some (VMap ks es) \<Rightarrow>
                  (if \<not> ks then Err MapKeyNotString h2 else mapLoop mappingNode es h2)
              | _ \<Rightarrow> Err DataNotStructOrMap h2))"

| "structLoop mappingNode [] h = Ok () h"
| "structLoop mappingNode (f # fs) h =
     (case updateField mappingNode f h of
        Panic c \<Rightarrow> Panic c
      | Err e h1 \<Rightarrow> Err (FieldError (fieldName f) e) h1
      | Ok u h1 \<Rightarrow> structLoop mappingNode fs h1)"

| "updateField mappingNode (Field name tag exported v) h =
     (let yamlTag = (if tag = [] then name else tag)
      in case findNodes h mappingNode yamlTag of
           FindPanic \<Rightarrow> Panic IndexOutOfRange
         | Found keyNode valueNode \<Rightarrow> updateNode (\<not> exported) valueNode v h
         | NotFound \<Rightarrow>
             (case appendPair mappingNode yamlTag h of
                None \<Rightarrow> Panic IndexOutOfRange
              | Some ((keyNode, valueNode), h1) \<Rightarrow> updateNode (\<not> exported) valueNode v h1))"

| "mapLoop mappingNode [] h = Ok () h"
| "mapLoop mappingNode ((keyStr, v) # es) h =
     (case findNodes h mappingNode keyStr of
        FindPanic \<Rightarrow> Panic IndexOutOfRange
      | Found keyNode valueNode \<Rightarrow>
          (case updateNode False valueNode v h of
             Panic c \<Rightarrow> Panic c
           | Err e h1 \<Rightarrow> Err (MapValueError keyStr e) h1
           | Ok u h1 \<Rightarrow> mapLoop mappingNode es h1)
      | NotFound \<Rightarrow>
          (case appendPair mappingNode keyStr h of
             None \<Rightarrow> Panic IndexOutOfRange
           | Some ((keyNode, valueNode), h1) \<Rightarrow>
               (case updateNode False valueNode v h1 of
                  Panic c \<Rightarrow> Panic c
                | Err e h2 \<Rightarrow> Err (MapValueError keyStr e) h2
                | Ok u h2 \<Rightarrow> mapLoop mappingNode es h2)))"

| "updateSequence ro node vs h =
     (let originalStyle = Style (h ! node);
          originalColumn = Column (h ! node);
          originalContent = Content (h ! node);
          h1 = retag node SequenceNode ''!!seq'' h;
          baseIndent = baseIndentOf node originalContent h1
      in case seqLoop ro node 0 vs originalContent baseIndent [] h1 of
           Panic c \<Rightarrow> Panic c
         | Err e h2 \<Rightarrow> Err e h2
         | Ok newContent h2 \<Rightarrow> Ok () (finish node newContent originalStyle originalColumn h2))"

| "seqLoop ro node i [] originalContent baseIndent newContent h = Ok newContent h"
| "seqLoop ro node i (v # vs) originalContent baseIndent newContent h =
     (case createOrReuseNode node i originalContent baseIndent h of
        (elemNode, h1) \<Rightarrow>
          (case updateNode ro elemNode v h1 of
             Panic c \<Rightarrow> Panic c
           | Err e h2 \<Rightarrow> Err (SequenceElemError i e) h2
           | Ok u h2 \<Rightarrow>
               seqLoop ro node (Suc i) vs originalContent baseIndent (newContent @ [elemNode]) h2))"

| "updateMapping ro node es h =
     (let originalStyle = Style (h ! node);
          originalColumn = Column (h ! node);
          originalContent = Content (h ! node);
          h1 = retag node MappingNode ''!!map'' h;
          baseIndent = baseIndentOf node originalContent h1
      in case mappingLoop ro node es originalContent baseIndent [] h1 of
           Panic c \<Rightarrow> Panic c
         | Err e h2 \<Rightarrow> Err e h2
         | Ok newContent h2 \<Rightarrow> Ok () (finish node newContent originalStyle originalColumn h2))"

| "mappingLoop ro node [] originalContent baseIndent newContent h = Ok newContent h"
| "mappingLoop ro node ((key, v) # es) originalContent baseIndent newContent h =
     (if ro then Panic UnexportedField
      else case createOrReusePair node key originalContent baseIndent h of
             None \<Rightarrow> Panic IndexOutOfRange
           | Some ((keyNode, valueNode), h1) \<Rightarrow>
               (case updateNode ro valueNode v h1 of
                  Panic c \<Rightarrow> Panic c
                | Err e h2 \<Rightarrow> Err (MappingValueError e) h2
                | Ok u h2 \<Rightarrow>
                    mappingLoop ro node es originalContent baseIndent
                      (newContent @ [keyNode, valueNode]) h2))"

  by pat_completeness simp_all

text \<open>Every call descends into the value: the recursion ends.\<close>

termination
  apply (relation "measure
    (case_sum
      (case_sum
        (case_sum (\<lambda>(ro, node, v, h). 3 * size v + 2) (\<lambda>(node, data, h). 3 * size data + 1))
        (case_sum (\<lambda>(node, fs, h). 3 * size_list size fs + 1) (\<lambda>(node, f, h). 3 * size f)))
      (case_sum
        (case_sum (\<lambda>(node, es, h). 3 * size_list (size_prod (\<lambda>_. 0) size) es + 1)
                  (\<lambda>(ro, node, vs, h). 3 * size_list size vs + 2))
        (case_sum (\<lambda>(ro, node, i, vs, oc, bi, acc, h). 3 * size_list size vs + 1)
          (case_sum (\<lambda>(ro, node, es, h). 3 * size_list (size_prod (\<lambda>_. 0) size) es + 2)
                    (\<lambda>(ro, node, es, oc, bi, acc, h). 3 * size_list (size_prod (\<lambda>_. 0) size) es + 1)))))")
  apply (auto dest: top_size)
  done

declare updateYamlFromStruct.simps [simp del] updateSequence.simps [simp del]
  updateMapping.simps [simp del]

lemmas merge_induct =
  updateNode_updateYamlFromStruct_structLoop_updateField_mapLoop_updateSequence_seqLoop_updateMapping_mappingLoop.induct

section \<open>Reading a decimal text\<close>




section \<open>What a merge leaves alone\<close>

text \<open>
  The fields of a node that no assignment of the merge engine writes (the style is
  written only to put back the value read on entry), and the kind Document, which no
  assignment gives a node, old or new.
\<close>

definition sameFrame :: "node \<Rightarrow> node \<Rightarrow> bool" where
  "sameFrame n n' \<longleftrightarrow>
     HeadComment n' = HeadComment n \<and> LineComment n' = LineComment n \<and> FootComment n' = FootComment n \<and>
     Line n' = Line n \<and> Anchor n' = Anchor n \<and> Alias n' = Alias n \<and> Style n' = Style n \<and>
     (Kind n' = DocumentNode \<longrightarrow> Kind n = DocumentNode)"

definition mono :: "heap \<Rightarrow> heap \<Rightarrow> bool" where
  "mono h h' \<longleftrightarrow>
     length h \<le> length h' \<and> (\<forall>b<length h. sameFrame (h ! b) (h' ! b)) \<and>
     (\<forall>b. length h \<le> b \<longrightarrow> b < length h' \<longrightarrow> Kind (h' ! b) \<noteq> DocumentNode)"

fun resMono :: "heap \<Rightarrow> 'a res \<Rightarrow> bool" where
  "resMono h (Ok x h') = mono h h'"
| "resMono h (Err e h') = mono h h'"
| "resMono h (Panic c) = True"

text \<open>The store a call leaves, when it returns.\<close>

fun storeOf :: "'a res \<Rightarrow> heap option" where
  "storeOf (Ok x h) = Some h"
| "storeOf (Err e h) = Some h"
| "storeOf (Panic c) = None"

definition comments :: "node \<Rightarrow> string \<times> string \<times> string" where
  "comments n = (HeadComment n, LineComment n, FootComment n)"

section \<open>The footprint of a merge\<close>

text \<open>
  A set of nodes is closed when it holds the children of its nodes. A merge into a node of
  a closed set \<open>S\<close> keeps the frame of \<open>S\<close>: the store only grows, the nodes outside \<open>S\<close> are
  as they were, \<open>S\<close> with the new nodes is closed again, and when no node of \<open>S\<close> is a
  Document no column of an old node changes and no node of \<open>S\<close> becomes a Document.
\<close>

definition closed :: "heap \<Rightarrow> addr set \<Rightarrow> bool" where
  "closed h S \<longleftrightarrow> (\<forall>x\<in>S. x < length h \<and> set (Content (h ! x)) \<subseteq> S)"

definition docfree :: "heap \<Rightarrow> addr set \<Rightarrow> bool" where
  "docfree h S \<longleftrightarrow> (\<forall>b\<in>S. Kind (h ! b) \<noteq> DocumentNode)"

definition frame :: "addr set \<Rightarrow> heap \<Rightarrow> heap \<Rightarrow> bool" where
  "frame S h h' \<longleftrightarrow>
     length h \<le> length h' \<and>
     (\<forall>b<length h. b \<notin> S \<longrightarrow> h' ! b = h ! b) \<and>
     closed h' (S \<union> {length h..<length h'}) \<and>
     (docfree h S \<longrightarrow>
        (\<forall>b<length h. Column (h' ! b) = Column (h ! b)) \<and> docfree h' (S \<union> {length h..<length h'}))"

fun resFrame :: "addr set \<Rightarrow> heap \<Rightarrow> unit res \<Rightarrow> bool" where
  "resFrame S h (Ok u h') = frame S h h'"
| "resFrame S h (Err e h') = frame S h h'"
| "resFrame S h (Panic c) = True"

fun resFrameC :: "addr set \<Rightarrow> heap \<Rightarrow> addr list res \<Rightarrow> bool" where
  "resFrameC S h (Ok cs h') = (frame S h h' \<and> set cs \<subseteq> S \<union> {length h..<length h'})"
| "resFrameC S h (Err e h') = frame S h h'"
| "resFrameC S h (Panic c) = True"

text \<open>adjustNodeColumns writes columns only, and only below the node it starts from.\<close>

definition colStep :: "addr set \<Rightarrow> heap \<Rightarrow> heap \<Rightarrow> bool" where
  "colStep S h h' \<longleftrightarrow>
     length h' = length h \<and>
     (\<forall>b<length h. (b \<notin> S \<longrightarrow> h' ! b = h ! b) \<and> Content (h' ! b) = Content (h ! b) \<and>
        Kind (h' ! b) = Kind (h ! b))"

text \<open>The key of a struct field: its yaml tag, or its name when the tag is empty.\<close>

definition yamlKey :: "string \<Rightarrow> string \<Rightarrow> string" where
  "yamlKey name tag = (if tag = [] then name else tag)"

section \<open>Mappings: keys and values\<close>

text \<open>
  The children of a mapping alternate keys and values. \<open>keysOf\<close> reads the keys in order.
  \<open>sepPairs V cs\<close> says that the set \<open>V\<close> holds every value of the list and none of its keys:
  on a tree, the nodes under the values are such a set.
\<close>

fun evens :: "'a list \<Rightarrow> 'a list" where
  "evens [] = []"
| "evens [k] = [k]"
| "evens (k # v # rest) = k # evens rest"

definition keysOf :: "heap \<Rightarrow> addr \<Rightarrow> string list" where
  "keysOf h node = map (\<lambda>k. Value (h ! k)) (evens (Content (h ! node)))"


text \<open>
  For a record: \<open>fieldKeys\<close> are the keys its fields resolve to, \<open>pairsOf\<close> the pairs of a
  mapping's children, and \<open>sepNamed N h V cs\<close> says that the list \<open>cs\<close> is made of pairs, that
  \<open>V\<close> holds none of its keys and holds the value of every pair whose key is in \<open>N\<close>.
\<close>

definition fieldKeys :: "field list \<Rightarrow> string set" where
  "fieldKeys fs = (\<lambda>f. yamlKey (fieldName f) (fieldTag f)) ` set fs"

fun sepNamed :: "string set \<Rightarrow> heap \<Rightarrow> addr set \<Rightarrow> addr list \<Rightarrow> bool" where
  "sepNamed N h V [] = True"
| "sepNamed N h V [k] = False"
| "sepNamed N h V (k # v # rest) = (k \<notin> V \<and> (Value (h ! k) \<in> N \<longrightarrow> v \<in> V) \<and> sepNamed N h V rest)"

fun pairsOf :: "addr list \<Rightarrow> (addr \<times> addr) list" where
  "pairsOf (k # v # rest) = (k, v) # pairsOf rest"
| "pairsOf cs = []"

text \<open>
  What a record merge into the mapping \<open>m\<close> keeps: the store grows, the old nodes outside
  \<open>S\<close> other than \<open>m\<close> are as they were, and \<open>m\<close> differs only by new children at the end.
\<close>

definition kept :: "addr \<Rightarrow> addr set \<Rightarrow> heap \<Rightarrow> heap \<Rightarrow> bool" where
  "kept m S h h' \<longleftrightarrow>
     length h \<le> length h' \<and>
     (\<forall>b<length h. b \<notin> S \<longrightarrow> b \<noteq> m \<longrightarrow> h' ! b = h ! b) \<and>
     (\<exists>extra. h' ! m = (h ! m)\<lparr>Content := Content (h ! m) @ extra\<rparr> \<and>
        set extra \<subseteq> {length h..<length h'})"

section \<open>Errors\<close>

text \<open>
  \<open>badDocument\<close> is the test of line 138 on a Document node; \<open>recordOrMap\<close> says that the value,
  after \<^verbatim>\<open>reflect.ValueOf\<close> and one pointer, is a struct or a map whose key type is a string.
\<close>

definition badDocument :: "heap \<Rightarrow> addr \<Rightarrow> bool" where
  "badDocument h node \<longleftrightarrow> Kind (h ! node) = DocumentNode \<and> length (Content (h ! node)) \<noteq> 1"

fun isErr :: "'a res \<Rightarrow> bool" where
  "isErr (Err e h) = True"
| "isErr r = False"

definition recordOrMap :: "gval \<Rightarrow> bool" where
  "recordOrMap data =
     (case ptrElem (ValueOf data) of
        Some (VStruct fs) \<Rightarrow> True
      | Some (VMap ks es) \<Rightarrow> ks
      | _ \<Rightarrow> False)"

section \<open>Columns after a top-level merge\<close>

text \<open>
  The nodes below a node, written as a tree of addresses: \<open>shape h t\<close> says that the
  \<^verbatim>\<open>Content\<close> lists of the store follow the tree, and \<open>isTree h t\<close> that moreover no node
  is reached twice, as in the result of parsing a text.
\<close>

datatype atree = T addr "atree list"

fun rootOf :: "atree \<Rightarrow> addr" where
  "rootOf (T a ts) = a"

fun addrs :: "atree \<Rightarrow> addr list" where
  "addrs (T a ts) = a # concat (map addrs ts)"

fun shape :: "heap \<Rightarrow> atree \<Rightarrow> bool" where
  "shape h (T a ts) = (a < length h \<and> Content (h ! a) = map rootOf ts \<and> (\<forall>t\<in>set ts. shape h t))"

fun height :: "atree \<Rightarrow> nat" where
  "height (T a ts) = Suc (foldr max (map height ts) 0)"

definition isTree :: "heap \<Rightarrow> atree \<Rightarrow> bool" where
  "isTree h t \<longleftrightarrow> shape h t \<and> distinct (addrs t)"

text \<open>
  What \<^verbatim>\<open>adjustNodeColumns\<close> does to one column, and to the columns of a set of nodes.
\<close>

definition shiftCol :: "goint \<Rightarrow> goint \<Rightarrow> goint" where
  "shiftCol offset c = (if sint c > sint offset then c - offset else c)"

definition shifted :: "goint \<Rightarrow> addr set \<Rightarrow> heap \<Rightarrow> heap \<Rightarrow> bool" where
  "shifted offset A h h' \<longleftrightarrow>
     length h' = length h \<and>
     (\<forall>b<length h. h' ! b = (if b \<in> A then (h ! b)\<lparr>Column := shiftCol offset (Column (h ! b))\<rparr> else h ! b))"

text \<open>
  Lines 91 to 94 of \<^verbatim>\<open>UpdateYAML\<close>, after the merge:
  \<^verbatim>\<open>root.Column = 0; if len(root.Content) > 0 { root.Content[0].Column = 0 }\<close>.
\<close>

definition rootColumnsZero :: "addr \<Rightarrow> heap \<Rightarrow> heap" where
  "rootColumnsZero node h =
     (let h1 = h[node := (h ! node)\<lparr>Column := 0\<rparr>]
      in if length (Content (h1 ! node)) > 0
         then h1[Content (h1 ! node) ! 0 := (h1 ! (Content (h1 ! node) ! 0))\<lparr>Column := 0\<rparr>]
         else h1)"

text \<open>
  \<^verbatim>\<open>UpdateYAML\<close>. The parser \<^verbatim>\<open>yaml.Unmarshal\<close> and the encoder of \<^verbatim>\<open>gopkg.in/yaml.v3\<close> are
  not part of this package: they are parameters here. The parser returns the store with the
  Document node \<^verbatim>\<open>root\<close> at address 0, the encoder takes the store and the indentation set by
  \<^verbatim>\<open>SetIndent\<close>. A crash of the merge is the value \<open>None\<close>.
\<close>

datatype uerr = ParseFailed | UpdateFailed merr | EncodeFailed

definition UpdateYAML ::
  "(string \<Rightarrow> heap option) \<Rightarrow> (heap \<Rightarrow> goint \<Rightarrow> string option) \<Rightarrow> string \<Rightarrow> gval
   \<Rightarrow> (uerr + string) option" where
  "UpdateYAML Unmarshal Encode content newData =
     (let indent = detectIndentation content
      in case Unmarshal content of
           None \<Rightarrow> Some (Inl ParseFailed)
         | Some h \<Rightarrow>
             (case updateYamlFromStruct 0 newData h of
                Panic c \<Rightarrow> None
              | Err e h1 \<Rightarrow> Some (Inl (UpdateFailed e))
              | Ok u h1 \<Rightarrow>
                  (case Encode (rootColumnsZero 0 h1) indent of
                     None \<Rightarrow> Some (Inl EncodeFailed)
                   | Some out \<Rightarrow> Some (Inr out))))"

section \<open>A tree that fits the value\<close>

text \<open>
  A merge that meets no error can still panic: \<^verbatim>\<open>value.Interface()\<close> on a value reached through
  an unexported field, an index past the end of a children list of odd length, a column
  shift that does not end. The predicates below describe calls where none of this happens.

  \<open>good v\<close>: every struct field in the value is exported, no two fields of a struct resolve
  to the same key and no two entries of a map have the same key text.
\<close>

fun good :: "gval \<Rightarrow> bool"
and goodFields :: "field list \<Rightarrow> bool"
and goodEntries :: "(string \<times> gval) list \<Rightarrow> bool"
and goodElems :: "gval list \<Rightarrow> bool" where
  "good (VStruct fs) = (distinct (map (\<lambda>f. yamlKey (fieldName f) (fieldTag f)) fs) \<and> goodFields fs)"
| "good (VMap ks es) = (distinct (map fst es) \<and> goodEntries es)"
| "good (VSlice vs) = goodElems vs"
| "good (VIface (Some v)) = good v"
| "good v = True"
| "goodFields [] = True"
| "goodFields (Field name tag exported v # fs) = (exported \<and> good v \<and> goodFields fs)"
| "goodEntries [] = True"
| "goodEntries ((key, v) # es) = (good v \<and> goodEntries es)"
| "goodElems [] = True"
| "goodElems (v # vs) = (good v \<and> goodElems vs)"

text \<open>
  \<open>fits h n v\<close>: where the value has a struct or a map and the merge reaches an existing node,
  the children of that node are pairs (their number is even), and so on below, following
  the lookups of the merge: by key for structs and maps, by position for slices.
\<close>

fun fits :: "heap \<Rightarrow> addr \<Rightarrow> gval \<Rightarrow> bool"
and fitsFields :: "heap \<Rightarrow> addr list \<Rightarrow> field list \<Rightarrow> bool"
and fitsEntries :: "heap \<Rightarrow> addr list \<Rightarrow> (string \<times> gval) list \<Rightarrow> bool"
and fitsElems :: "heap \<Rightarrow> addr list \<Rightarrow> gval list \<Rightarrow> bool" where
  "fits h n (VStruct fs) = (even (length (Content (h ! n))) \<and> fitsFields h (Content (h ! n)) fs)"
| "fits h n (VMap ks es) = (even (length (Content (h ! n))) \<and> fitsEntries h (Content (h ! n)) es)"
| "fits h n (VSlice vs) = fitsElems h (Content (h ! n)) vs"
| "fits h n (VIface (Some v)) = fits h n v"
| "fits h n v = True"
| "fitsFields h cs [] = True"
| "fitsFields h cs (Field name tag exported v # fs) =
     ((case scanPairs h cs (yamlKey name tag) of Found k vn \<Rightarrow> fits h vn v | _ \<Rightarrow> True) \<and>
      fitsFields h cs fs)"
| "fitsEntries h cs [] = True"
| "fitsEntries h cs ((key, v) # es) =
     ((case scanPairs h cs key of Found k vn \<Rightarrow> fits h vn v | _ \<Rightarrow> True) \<and> fitsEntries h cs es)"
| "fitsElems h (c # cs) (v # vs) = (fits h c v \<and> fitsElems h cs vs)"
| "fitsElems h cs vs = True"

text \<open>
  \<open>fitsCall h node t data\<close>: the call merges into the root of the tree \<open>t\<close> (the single child
  of the Document \<open>node\<close>, or \<open>node\<close> itself), no node of the tree is a Document, and when
  the value given to the call is a struct or a map keyed by strings, the tree fits it and
  it is good.
\<close>

definition fitsCall :: "heap \<Rightarrow> addr \<Rightarrow> atree \<Rightarrow> gval \<Rightarrow> bool" where
  "fitsCall h node t data \<longleftrightarrow>
     isTree h t \<and> docfree h (set (addrs t)) \<and>
     (if Kind (h ! node) = DocumentNode
      then Content (h ! node) = [rootOf t] \<and> node \<notin> set (addrs t)
      else rootOf t = node) \<and>
     (recordOrMap data \<longrightarrow>
        (case ptrElem (ValueOf data) of Some w \<Rightarrow> fits h (rootOf t) w \<and> good w | None \<Rightarrow> True))"

text \<open>
  For the loops of the merge: the value trees of a mapping are at the odd positions of its
  children; \<open>pending h F\<close> says that the trees of \<open>F\<close>, still to be merged into, are trees of the
  store, free of Documents and pairwise disjoint; \<open>cover F\<close> are their nodes. \<open>pairsInv\<close> is what
  a loop over keys keeps true of the children list it looks keys up in, \<open>loopInv\<close> the same
  for the loops that append to the mapping \<open>m\<close>, \<open>elemsInv\<close> for the loop over a slice.
\<close>

fun odds :: "'a list \<Rightarrow> 'a list" where
  "odds (k # v # rest) = v # odds rest"
| "odds xs = []"

definition cover :: "atree set \<Rightarrow> addr set" where
  "cover F = (\<Union>t\<in>F. set (addrs t))"

definition pending :: "heap \<Rightarrow> atree set \<Rightarrow> bool" where
  "pending h F \<longleftrightarrow>
     (\<forall>t\<in>F. isTree h t \<and> docfree h (set (addrs t))) \<and>
     (\<forall>t\<in>F. \<forall>t'\<in>F. t \<noteq> t' \<longrightarrow> set (addrs t) \<inter> set (addrs t') = {})"

definition pairsInv :: "heap \<Rightarrow> addr list \<Rightarrow> atree set \<Rightarrow> (string \<times> gval) list \<Rightarrow> bool" where
  "pairsInv h cs F kvs \<longleftrightarrow>
     even (length cs) \<and> distinct cs \<and> set cs \<subseteq> {..<length h} \<and>
     pending h F \<and> (\<forall>k\<in>set (evens cs). k \<notin> cover F) \<and>
     (\<forall>(key, v)\<in>set kvs. \<forall>k vn. scanPairs h cs key = Found k vn \<longrightarrow>
        (\<exists>t\<in>F. rootOf t = vn) \<and> fits h vn v) \<and>
     distinct (map fst kvs) \<and> goodEntries kvs"

definition loopInv :: "heap \<Rightarrow> addr \<Rightarrow> atree set \<Rightarrow> (string \<times> gval) list \<Rightarrow> bool" where
  "loopInv h m F kvs \<longleftrightarrow>
     m < length h \<and> m \<notin> set (Content (h ! m)) \<and> m \<notin> cover F \<and> pairsInv h (Content (h ! m)) F kvs"

definition elemsInv :: "heap \<Rightarrow> addr list \<Rightarrow> atree set \<Rightarrow> gval list \<Rightarrow> bool" where
  "elemsInv h cs F vs \<longleftrightarrow>
     distinct cs \<and> pending h F \<and> (\<forall>c\<in>set cs. \<exists>t\<in>F. rootOf t = c) \<and> fitsElems h cs vs \<and> goodElems vs"

text \<open>The key and the value of a struct field, as an entry.\<close>

definition fieldEntry :: "field \<Rightarrow> string \<times> gval" where
  "fieldEntry f = (yamlKey (fieldName f) (fieldTag f), fieldValue f)"

section \<open>Example stores\<close>

text \<open>
  The scenario of the specification, \<^verbatim>\<open>name: Bob  # nickname\<close> and \<^verbatim>\<open>age: 20\<close>, as the parser
  lays it out (lines and columns count from 1), the record \<^verbatim>\<open>{name: "Bob", age: 21}\<close>, and
  the store the merge leaves.
\<close>

definition bobStore :: heap where
  "bobStore =
     [zeroNode\<lparr>Kind := DocumentNode, Line := 1, Column := 1, Content := [1]\<rparr>,
      zeroNode\<lparr>Kind := MappingNode, Tag := ''!!map'', Line := 1, Column := 1, Content := [2, 3, 4, 5]\<rparr>,
      zeroNode\<lparr>Kind := ScalarNode, Tag := ''!!str'', Value := ''name'', Line := 1, Column := 1\<rparr>,
      zeroNode\<lparr>Kind := ScalarNode, Tag := ''!!str'', Value := ''Bob'', Line := 1, Column := 7,
                LineComment := ''# nickname''\<rparr>,
      zeroNode\<lparr>Kind := ScalarNode, Tag := ''!!str'', Value := ''age'', Line := 2, Column := 1\<rparr>,
      zeroNode\<lparr>Kind := ScalarNode, Tag := ''!!int'', Value := ''20'', Line := 2, Column := 6\<rparr>]"

definition bobRecord :: gval where
  "bobRecord = VStruct [Field ''Name'' ''name'' True (VString ''Bob''), Field ''Age'' ''age'' True (VInt 21)]"

definition bobMerged :: heap where
  "bobMerged =
     [zeroNode\<lparr>Kind := DocumentNode, Line := 1, Column := 0, Content := [1]\<rparr>,
      zeroNode\<lparr>Kind := MappingNode, Tag := ''!!map'', Line := 1, Column := 0, Content := [2, 3, 4, 5]\<rparr>,
      zeroNode\<lparr>Kind := ScalarNode, Tag := ''!!str'', Value := ''name'', Line := 1, Column := 1\<rparr>,
      zeroNode\<lparr>Kind := ScalarNode, Tag := ''!!str'', Value := ''Bob'', Line := 1, Column := 6,
                LineComment := ''# nickname''\<rparr>,
      zeroNode\<lparr>Kind := ScalarNode, Tag := ''!!str'', Value := ''age'', Line := 2, Column := 1\<rparr>,
      zeroNode\<lparr>Kind := ScalarNode, Tag := ''!!int'', Value := ''21'', Line := 2, Column := 5\<rparr>]"


text \<open>A sequence of two strings; and the store after merging three strings into it.\<close>

definition seqStore :: heap where
  "seqStore =
     [zeroNode\<lparr>Kind := SequenceNode, Tag := ''!!seq'', Line := 1, Column := 1, Content := [1, 2]\<rparr>,
      zeroNode\<lparr>Kind := ScalarNode, Tag := ''!!str'', Value := ''reading'', Line := 1, Column := 3\<rparr>,
      zeroNode\<lparr>Kind := ScalarNode, Tag := ''!!str'', Value := ''gaming'', Line := 2, Column := 3\<rparr>]"

definition seqMerged :: heap where
  "seqMerged =
     [zeroNode\<lparr>Kind := SequenceNode, Tag := ''!!seq'', Line := 1, Column := 1, Content := [1, 2, 3]\<rparr>,
      zeroNode\<lparr>Kind := ScalarNode, Tag := ''!!str'', Value := ''hiking'', Line := 1, Column := 3\<rparr>,
      zeroNode\<lparr>Kind := ScalarNode, Tag := ''!!str'', Value := ''gaming'', Line := 2, Column := 3\<rparr>,
      zeroNode\<lparr>Kind := ScalarNode, Tag := ''!!str'', Value := ''reading'', Line := 2, Column := 3\<rparr>]"

text \<open>
  A source indented by four spaces, \<^verbatim>\<open>outer:\<close> over \<^verbatim>\<open>inner: 1\<close>, as the parser lays it out,
  and a record with a nested field \<^verbatim>\<open>extra\<close> that the source does not have.
\<close>

definition fourText :: string where
  "fourText = ''outer:\<newline>    inner: 1\<newline>''"

definition fourStore :: heap where
  "fourStore =
     [zeroNode\<lparr>Kind := DocumentNode, Line := 1, Column := 1, Content := [1]\<rparr>,
      zeroNode\<lparr>Kind := MappingNode, Tag := ''!!map'', Line := 1, Column := 1, Content := [2, 3]\<rparr>,
      zeroNode\<lparr>Kind := ScalarNode, Tag := ''!!str'', Value := ''outer'', Line := 1, Column := 1\<rparr>,
      zeroNode\<lparr>Kind := MappingNode, Tag := ''!!map'', Line := 2, Column := 5, Content := [4, 5]\<rparr>,
      zeroNode\<lparr>Kind := ScalarNode, Tag := ''!!str'', Value := ''inner'', Line := 2, Column := 5\<rparr>,
      zeroNode\<lparr>Kind := ScalarNode, Tag := ''!!int'', Value := ''1'', Line := 2, Column := 12\<rparr>]"

definition fourRecord :: gval where
  "fourRecord = VStruct
     [Field ''Outer'' ''outer'' True (VStruct [Field ''Inner'' ''inner'' True (VInt 1)]),
      Field ''Extra'' ''extra'' True (VStruct [Field ''X'' ''x'' True (VInt 1)])]"



text \<open>A struct with a field of type \<^verbatim>\<open>map[int]string\<close>, holding 80: "http".\<close>

definition portsRecord :: gval where
  "portsRecord = VStruct [Field ''Ports'' ''ports'' True (VMap False [(''80'', VString ''http'')])]"

text \<open>The nodes below the Document node of the first example.\<close>

definition bobTree :: atree where
  "bobTree = T 1 [T 2 [], T 3 [], T 4 [], T 5 []]"


section \<open>Lemmas: the frame of a merge\<close>

lemma nth_upd: "(h[a := n]) ! b = (if a = b \<and> a < length h then n else h ! b)"
  by (cases "a < length h") (auto simp: nth_list_update list_update_beyond)

lemma mono_refl [simp]: "mono h h"
  by (simp add: mono_def sameFrame_def)

lemma sameFrame_trans: "sameFrame a b \<Longrightarrow> sameFrame b c \<Longrightarrow> sameFrame a c"
  by (simp add: sameFrame_def)

lemma mono_trans:
  assumes a: "mono h h1" and b: "mono h1 h2"
  shows "mono h h2"
  unfolding mono_def
proof (intro conjI allI impI)
  show "length h \<le> length h2" using a b by (simp add: mono_def)
next
  fix x assume "x < length h"
  then show "sameFrame (h ! x) (h2 ! x)"
    using a b by (auto simp: mono_def intro: sameFrame_trans)
next
  fix x assume x: "length h \<le> x" "x < length h2"
  show "Kind (h2 ! x) \<noteq> DocumentNode"
  proof (cases "x < length h1")
    case True
    then have "Kind (h1 ! x) \<noteq> DocumentNode" "sameFrame (h1 ! x) (h2 ! x)"
      using a b x by (simp_all add: mono_def)
    then show ?thesis by (simp add: sameFrame_def)
  next
    case False
    then show ?thesis using b x by (simp add: mono_def)
  qed
qed

lemma mono_update:
  assumes "a < length h \<Longrightarrow> sameFrame (h ! a) n"
  shows "mono h (h[a := n])"
  using assms by (auto simp: mono_def nth_upd sameFrame_def)

lemma mono_append: "\<forall>n\<in>set ns. Kind n \<noteq> DocumentNode \<Longrightarrow> mono h (h @ ns)"
  by (auto simp: mono_def nth_append sameFrame_def)

lemma mono_setScalar: "mono h (setScalar a t v h)"
  unfolding setScalar_def by (rule mono_update) (simp add: sameFrame_def)

lemma mono_retag: "k \<noteq> DocumentNode \<Longrightarrow> mono h (retag a k t h)"
  unfolding retag_def by (rule mono_update) (simp add: sameFrame_def)

lemma mono_asMapping: "mono h (asMapping a h)"
  unfolding asMapping_def by (auto intro!: mono_update simp: sameFrame_def)

lemma mono_restore:
  assumes "mono h h1"
  shows "mono h (restore a (Style (h ! a)) c h1)"
  using assms unfolding mono_def restore_def sameFrame_def
  by (auto simp: nth_upd)

lemma mono_finish:
  assumes "mono h h1"
  shows "mono h (finish a cs (Style (h ! a)) c h1)"
  using assms unfolding mono_def finish_def sameFrame_def
  by (auto simp: nth_upd)

lemma mono_appendPair: "appendPair m key h = Some (p, h1) \<Longrightarrow> mono h h1"
  unfolding appendPair_def Let_def
  by (auto split: if_splits simp: mono_def nth_upd nth_append sameFrame_def zeroNode_def
        less_Suc_eq)

lemma mono_createOrReuseNode: "createOrReuseNode node i oc bi h = (e, h1) \<Longrightarrow> mono h h1"
  unfolding createOrReuseNode_def Let_def
  by (auto split: if_splits simp: mono_append zeroNode_def)

lemma mono_createOrReusePair: "createOrReusePair node key oc bi h = Some (p, h1) \<Longrightarrow> mono h h1"
  unfolding createOrReusePair_def Let_def
  by (auto split: if_splits found.splits simp: mono_append zeroNode_def)

lemma mono_adjust:
  "adjustNodeColumns d a off h = Some h' \<Longrightarrow> mono h h'"
  "adjustChildren d cs off h = Some h' \<Longrightarrow> mono h h'"
proof (induction d a off h and d cs off h arbitrary: h' and h' rule: adjustNodeColumns_adjustChildren.induct)
  case (1 node offset h)
  then show ?case by simp
next
  case (2 depth node offset h)
  let ?h1 = "if sint (Column (h ! node)) > sint offset
                then h[node := (h ! node)\<lparr>Column := Column (h ! node) - offset\<rparr>] else h"
  have "mono h ?h1" by (auto intro!: mono_update simp: sameFrame_def)
  moreover have "mono ?h1 h'" using 2 by (simp add: Let_def)
  ultimately show ?case by (rule mono_trans)
next
  case (3 depth offset h)
  then show ?case by simp
next
  case (4 depth child rest offset h)
  then show ?case by (auto split: option.splits intro: mono_trans)
qed

lemma mono_unwrapDocument: "unwrapDocument node h = Unwrapped m h1 \<Longrightarrow> mono h h1"
  unfolding unwrapDocument_def Let_def
  apply (auto split: if_splits option.splits)
  apply (rule mono_trans[OF _ mono_adjust(1)])
   prefer 2 apply assumption
  apply (rule mono_trans[OF mono_update mono_update])
  apply (auto simp: sameFrame_def nth_upd)
  done

lemma resMono_trans: "mono h h1 \<Longrightarrow> resMono h1 r \<Longrightarrow> resMono h r"
  by (cases r) (auto intro: mono_trans)

lemma updateYamlFromStruct_cases [case_names Bad Endless Struct Map KeyErr Other]:
  obtains
    (Bad) "unwrapDocument node h = BadDocument"
          "updateYamlFromStruct node data h = Err DocumentChildCount h"
  | (Endless) "unwrapDocument node h = Endless"
          "updateYamlFromStruct node data h = Panic StackOverflow"
  | (Struct) m h1 fs where "unwrapDocument node h = Unwrapped m h1"
          "ptrElem (ValueOf data) = Some (VStruct fs)"
          "updateYamlFromStruct node data h = structLoop m fs (asMapping m h1)"
  | (Map) m h1 es where "unwrapDocument node h = Unwrapped m h1"
          "ptrElem (ValueOf data) = Some (VMap True es)"
          "updateYamlFromStruct node data h = mapLoop m es (asMapping m h1)"
  | (KeyErr) m h1 es where "unwrapDocument node h = Unwrapped m h1"
          "ptrElem (ValueOf data) = Some (VMap False es)"
          "updateYamlFromStruct node data h = Err MapKeyNotString (asMapping m h1)"
  | (Other) m h1 where "unwrapDocument node h = Unwrapped m h1"
          "\<forall>fs. ptrElem (ValueOf data) \<noteq> Some (VStruct fs)"
          "\<forall>ks es. ptrElem (ValueOf data) \<noteq> Some (VMap ks es)"
          "updateYamlFromStruct node data h = Err DataNotStructOrMap (asMapping m h1)"
proof (cases "unwrapDocument node h")
  case (Unwrapped m h1)
  show ?thesis
  proof (cases "ptrElem (ValueOf data)")
    case None
    then show ?thesis using Unwrapped Other by (simp add: updateYamlFromStruct.simps)
  next
    case (Some x)
    show ?thesis
    proof (cases x)
      case (VStruct fs)
      then show ?thesis using Unwrapped Some Struct by (simp add: updateYamlFromStruct.simps)
    next
      case (VMap ks es)
      then show ?thesis using Unwrapped Some Map KeyErr
        by (cases ks) (simp_all add: updateYamlFromStruct.simps)
    qed (use Unwrapped Some Other in \<open>simp_all add: updateYamlFromStruct.simps\<close>)
  qed
next
  case BadDocument
  then show ?thesis using Bad by (simp add: updateYamlFromStruct.simps)
next
  case Endless
  then show ?thesis using that(2) by (simp add: updateYamlFromStruct.simps)
qed

lemma merge_mono:
  "resMono h (updateNode ro node v h)"
  "resMono h (updateYamlFromStruct node data h)"
  "resMono h (structLoop node fs h)"
  "resMono h (updateField node f h)"
  "resMono h (mapLoop node es h)"
  "resMono h (updateSequence ro node vs h)"
  "resMono h (seqLoop ro node i vs oc bi acc h)"
  "resMono h (updateMapping ro node es h)"
  "resMono h (mappingLoop ro node es oc bi acc h)"
proof (induction ro node v h and node data h and node fs h and node f h and node es h
        and ro node vs h and ro node i vs oc bi acc h and ro node es h and ro node es oc bi acc h
        rule: merge_induct)
  case (1 ro node v h)
  then show ?case by simp
next
  case (2 ro node h)
  then show ?case by (simp add: mono_restore mono_setScalar)
next
  case (3 ro node fs h)
  then show ?case by (auto split: res.splits intro: mono_restore)
next
  case (4 ro node vs h)
  then show ?case by (auto split: res.splits intro: mono_restore)
next
  case (5 ro node ks es h)
  then show ?case by (auto split: res.splits intro: mono_restore)
next
  case (6 ro node i h)
  then show ?case by (simp add: mono_restore mono_setScalar)
next
  case (7 ro node t h)
  then show ?case by (simp add: mono_restore mono_setScalar)
next
  case (8 ro node b h)
  then show ?case by (simp add: mono_restore mono_setScalar)
next
  case (9 ro node s h)
  then show ?case by (simp add: mono_restore mono_setScalar)
next
  case (10 ro node t h)
  then show ?case by (simp add: mono_restore mono_setScalar)
next
  case (11 ro node t p h)
  then show ?case by (simp add: mono_restore mono_setScalar)
next
  case (12 ro node n h)
  then show ?case by (simp add: mono_restore mono_setScalar)
next
  case (13 node data h)
  show ?case
  proof (cases rule: updateYamlFromStruct_cases[of node h data])
    case (Struct m h1 fs)
    have "mono h (asMapping m h1)"
      using mono_unwrapDocument[OF Struct(1)] mono_asMapping mono_trans by blast
    then show ?thesis using 13(1)[OF Struct(1) refl Struct(2) refl] Struct(3)
      by (cases "structLoop m fs (asMapping m h1)") (auto intro: mono_trans)
  next
    case (Map m h1 es)
    have "mono h (asMapping m h1)"
      using mono_unwrapDocument[OF Map(1)] mono_asMapping mono_trans by blast
    then show ?thesis using 13(2)[OF Map(1) refl Map(2) refl] Map(3)
      by (cases "mapLoop m es (asMapping m h1)") (auto intro: mono_trans)
  next
    case (KeyErr m h1 es)
    then show ?thesis using mono_unwrapDocument mono_asMapping mono_trans by (metis resMono.simps(2))
  next
    case (Other m h1)
    then show ?thesis using mono_unwrapDocument mono_asMapping mono_trans by (metis resMono.simps(2))
  qed simp_all
next
  case (14 mappingNode h)
  then show ?case by simp
next
  case (15 mappingNode f fs h)
  then show ?case
    by (cases "updateField mappingNode f h") (auto intro: resMono_trans)
next
  case (16 mappingNode name tag exported v h)
  let ?tag = "if tag = [] then name else tag"
  show ?case
  proof (cases "findNodes h mappingNode ?tag")
    case (Found k vn)
    then show ?thesis using 16(1)[OF refl Found] by (simp add: Let_def)
  next
    case NotFound
    show ?thesis
    proof (cases "appendPair mappingNode ?tag h")
      case None
      then show ?thesis using NotFound by (simp add: Let_def)
    next
      case (Some x)
      obtain kn vn h1 where x: "x = ((kn, vn), h1)" by (metis prod.collapse)
      have m1: "mono h h1" using Some x mono_appendPair by blast
      show ?thesis using NotFound Some x resMono_trans[OF m1 16(2)[OF refl NotFound Some[unfolded x] refl refl]]
        by (simp add: Let_def)
    qed
  next
    case FindPanic
    then show ?thesis by (simp add: Let_def)
  qed
next
  case (17 mappingNode h)
  then show ?case by simp
next
  case (18 mappingNode keyStr v es h)
  show ?case
  proof (cases "findNodes h mappingNode keyStr")
    case (Found k vn)
    then show ?thesis using 18(1,2)[OF Found]
      by (cases "updateNode False vn v h") (auto intro: mono_trans resMono_trans)
  next
    case NotFound
    show ?thesis
    proof (cases "appendPair mappingNode keyStr h")
      case None
      then show ?thesis using NotFound by simp
    next
      case (Some x)
      obtain kn vn h1 where x: "x = ((kn, vn), h1)" by (metis prod.collapse)
      have m1: "mono h h1" using Some x mono_appendPair by blast
      show ?thesis using NotFound Some x m1 18(3,4)[OF NotFound Some[unfolded x] refl refl]
        by (cases "updateNode False vn v h1") (auto intro: mono_trans resMono_trans)
    qed
  next
    case FindPanic
    then show ?thesis by simp
  qed
next
  case (19 ro node vs h)
  have m1: "mono h (retag node SequenceNode ''!!seq'' h)" by (simp add: mono_retag)
  show ?case using 19[OF refl refl refl refl refl] m1
    by (cases "seqLoop ro node 0 vs (Content (h ! node))
                 (baseIndentOf node (Content (h ! node)) (retag node SequenceNode ''!!seq'' h)) []
                 (retag node SequenceNode ''!!seq'' h)")
       (auto simp: Let_def updateSequence.simps updateMapping.simps intro: mono_trans mono_finish)
next
  case (20 ro node i originalContent baseIndent newContent h)
  then show ?case by simp
next
  case (21 ro node i v vs originalContent baseIndent newContent h)
  obtain e h1 where c: "createOrReuseNode node i originalContent baseIndent h = (e, h1)"
    by (metis prod.collapse)
  have m1: "mono h h1" using c mono_createOrReuseNode by blast
  show ?case using c m1 21(1,2)[OF c[symmetric]]
    by (cases "updateNode ro e v h1") (auto intro: mono_trans resMono_trans)
next
  case (22 ro node es h)
  have m1: "mono h (retag node MappingNode ''!!map'' h)" by (simp add: mono_retag)
  show ?case using 22[OF refl refl refl refl refl] m1
    by (cases "mappingLoop ro node es (Content (h ! node))
                 (baseIndentOf node (Content (h ! node)) (retag node MappingNode ''!!map'' h)) []
                 (retag node MappingNode ''!!map'' h)")
       (auto simp: Let_def updateSequence.simps updateMapping.simps intro: mono_trans mono_finish)
next
  case (23 ro node originalContent baseIndent newContent h)
  then show ?case by simp
next
  case (24 ro node key v es originalContent baseIndent newContent h)
  show ?case
  proof (cases ro)
    case True
    then show ?thesis by simp
  next
    case False
    show ?thesis
    proof (cases "createOrReusePair node key originalContent baseIndent h")
      case None
      then show ?thesis using False by simp
    next
      case (Some x)
      obtain kn vn h1 where x: "x = ((kn, vn), h1)" by (metis prod.collapse)
      have m1: "mono h h1" using Some x mono_createOrReusePair by blast
      show ?thesis using False Some x m1 24(1,2)[OF False Some[unfolded x] refl refl]
        by (cases "updateNode ro vn v h1") (auto intro: mono_trans resMono_trans)
    qed
  qed
qed


lemma storeOf_mono: "storeOf r = Some h' \<Longrightarrow> resMono h r \<Longrightarrow> mono h h'"
  by (cases r) auto

lemma mono_comments: "mono h h' \<Longrightarrow> b < length h \<Longrightarrow> comments (h' ! b) = comments (h ! b)"
  by (simp add: mono_def sameFrame_def comments_def)

subsection \<open>The footprint\<close>

lemma closedD: "closed h S \<Longrightarrow> x \<in> S \<Longrightarrow> x < length h \<and> set (Content (h ! x)) \<subseteq> S"
  by (simp add: closed_def)

lemma frame_refl: "closed h S \<Longrightarrow> frame S h h"
  by (simp add: frame_def)

lemma frame_length: "frame S h h' \<Longrightarrow> length h \<le> length h'"
  by (simp add: frame_def)

lemma frame_closed: "frame S h h' \<Longrightarrow> closed h' (S \<union> {length h..<length h'})"
  by (simp add: frame_def)

lemma fresh_union:
  "length h \<le> length h1 \<Longrightarrow> length h1 \<le> length h2 \<Longrightarrow>
   S \<union> {length h..<length h1} \<union> {length h1..<length h2} = S \<union> {length h..<length h2}"
  by auto

lemma frame_trans:
  assumes a: "frame S h h1" and b: "frame (S \<union> {length h..<length h1}) h1 h2"
  shows "frame S h h2"
proof -
  have l1: "length h \<le> length h1" and l2: "length h1 \<le> length h2"
    using a b by (simp_all add: frame_def)
  have u: "S \<union> {length h..<length h1} \<union> {length h1..<length h2} = S \<union> {length h..<length h2}"
    using l1 l2 by (rule fresh_union)
  have c1: "\<forall>b<length h. b \<notin> S \<longrightarrow> h2 ! b = h ! b"
  proof (intro allI impI)
    fix x assume x: "x < length h" "x \<notin> S"
    then have "x \<notin> S \<union> {length h..<length h1}" "x < length h1" using l1 by auto
    then have "h2 ! x = h1 ! x" using b by (simp add: frame_def)
    moreover have "h1 ! x = h ! x" using a x by (simp add: frame_def)
    ultimately show "h2 ! x = h ! x" by simp
  qed
  have c2: "closed h2 (S \<union> {length h..<length h2})"
    using b u by (simp add: frame_def)
  have c3: "docfree h S \<longrightarrow>
        (\<forall>b<length h. Column (h2 ! b) = Column (h ! b)) \<and> docfree h2 (S \<union> {length h..<length h2})"
  proof
    assume d: "docfree h S"
    then have d1: "\<forall>b<length h. Column (h1 ! b) = Column (h ! b)"
      and d2: "docfree h1 (S \<union> {length h..<length h1})"
      using a by (simp_all add: frame_def)
    have e1: "\<forall>b<length h1. Column (h2 ! b) = Column (h1 ! b)"
      and e2: "docfree h2 (S \<union> {length h..<length h1} \<union> {length h1..<length h2})"
      using b d2 by (simp_all add: frame_def)
    show "(\<forall>b<length h. Column (h2 ! b) = Column (h ! b)) \<and> docfree h2 (S \<union> {length h..<length h2})"
      using d1 e1 e2 u l1 by auto
  qed
  show ?thesis unfolding frame_def using l1 l2 c1 c2 c3 by simp
qed

lemma resFrame_trans:
  "frame S h h1 \<Longrightarrow> resFrame (S \<union> {length h..<length h1}) h1 r \<Longrightarrow> resFrame S h r"
  by (cases r) (auto intro: frame_trans)

lemma resFrameC_trans:
  assumes "frame S h h1" and "resFrameC (S \<union> {length h..<length h1}) h1 r"
  shows "resFrameC S h r"
proof (cases r)
  case (Ok cs h2)
  have f: "frame S h h2" using assms Ok by (auto intro: frame_trans)
  have "length h \<le> length h1" "length h1 \<le> length h2" using assms Ok by (auto simp: frame_def)
  then have "S \<union> {length h..<length h1} \<union> {length h1..<length h2} = S \<union> {length h..<length h2}"
    by (rule fresh_union)
  then show ?thesis using f assms(2) Ok by auto
next
  case (Err e h2)
  then show ?thesis using assms by (auto intro: frame_trans)
qed simp

text \<open>An assignment to a node of the set.\<close>

lemma frame_update:
  assumes "a \<in> S" and "closed h S" and "set (Content n) \<subseteq> S"
    and "docfree h S \<Longrightarrow> Column n = Column (h ! a) \<and> Kind n \<noteq> DocumentNode"
  shows "frame S h (h[a := n])"
  unfolding frame_def
proof (intro conjI)
  show "closed (h[a := n]) (S \<union> {length h..<length (h[a := n])})"
    using assms(1,2,3) by (auto simp: closed_def nth_upd)
  show "docfree h S \<longrightarrow>
    (\<forall>b<length h. Column (h[a := n] ! b) = Column (h ! b)) \<and>
    docfree (h[a := n]) (S \<union> {length h..<length (h[a := n])})"
    using assms(4) by (auto simp: docfree_def nth_upd)
qed (use assms in \<open>auto simp: nth_upd\<close>)

lemma frame_setScalar:
  "a \<in> S \<Longrightarrow> closed h S \<Longrightarrow> frame S h (setScalar a t v h)"
  unfolding setScalar_def by (rule frame_update) (auto dest: closedD)

lemma frame_retag:
  "a \<in> S \<Longrightarrow> closed h S \<Longrightarrow> k \<noteq> DocumentNode \<Longrightarrow> frame S h (retag a k t h)"
  unfolding retag_def by (rule frame_update) (auto dest: closedD)

lemma frame_asMapping:
  assumes "a \<in> S" and "closed h S"
  shows "frame S h (asMapping a h)"
proof (cases "Kind (h ! a) \<noteq> MappingNode")
  case True
  have "frame S h (h[a := (h ! a)\<lparr>Kind := MappingNode, Tag := ''!!map''\<rparr>])"
    by (rule frame_update) (use assms closedD[OF assms(2,1)] in auto)
  then show ?thesis using True by (simp add: asMapping_def)
next
  case False
  then show ?thesis using assms by (simp add: asMapping_def frame_refl)
qed

text \<open>An assignment to a node of the set after a step that kept the frame.\<close>

lemma frame_then_update:
  assumes f: "frame S h h1" and a: "a \<in> S" and c: "closed h S"
    and n: "set (Content n) \<subseteq> S \<union> {length h..<length h1}"
    and k: "Column n = Column (h ! a)" "Kind n = Kind (h1 ! a)"
  shows "frame S h (h1[a := n])"
  unfolding frame_def
proof (intro conjI)
  let ?S1 = "S \<union> {length h..<length h1}"
  have c1: "closed h1 ?S1" using f by (simp add: frame_def)
  have al: "a < length h" using a c by (simp add: closed_def)
  show "length h \<le> length (h1[a := n])" using f by (simp add: frame_def)
  show "\<forall>b<length h. b \<notin> S \<longrightarrow> h1[a := n] ! b = h ! b"
    using f a by (auto simp: frame_def nth_upd)
  show "closed (h1[a := n]) (S \<union> {length h..<length (h1[a := n])})"
    using c1 n by (auto simp: closed_def nth_upd)
  show "docfree h S \<longrightarrow>
    (\<forall>b<length h. Column (h1[a := n] ! b) = Column (h ! b)) \<and>
    docfree (h1[a := n]) (S \<union> {length h..<length (h1[a := n])})"
  proof
    assume d: "docfree h S"
    then have d1: "\<forall>b<length h. Column (h1 ! b) = Column (h ! b)"
      and d2: "docfree h1 ?S1" using f by (simp_all add: frame_def)
    have "Kind n \<noteq> DocumentNode" using d2 a k(2) by (simp add: docfree_def)
    then show "(\<forall>b<length h. Column (h1[a := n] ! b) = Column (h ! b)) \<and>
      docfree (h1[a := n]) (S \<union> {length h..<length (h1[a := n])})"
      using d1 d2 k(1) by (auto simp: docfree_def nth_upd)
  qed
qed

lemma frame_restore:
  assumes "frame S h h1" and "a \<in> S" and "closed h S"
  shows "frame S h (restore a s (Column (h ! a)) h1)"
proof -
  have "a < length h1" using assms by (auto simp: closed_def frame_def)
  moreover have "closed h1 (S \<union> {length h..<length h1})" using assms(1) by (simp add: frame_def)
  ultimately have "set (Content (h1 ! a)) \<subseteq> S \<union> {length h..<length h1}"
    using assms(2) by (auto simp: closed_def)
  then show ?thesis unfolding restore_def
    by (intro frame_then_update[OF assms]) auto
qed

lemma frame_finish:
  assumes "frame S h h1" and "a \<in> S" and "closed h S"
    and "set cs \<subseteq> S \<union> {length h..<length h1}"
  shows "frame S h (finish a cs s (Column (h ! a)) h1)"
  unfolding finish_def by (intro frame_then_update[OF assms(1,2,3)]) (use assms(4) in auto)

text \<open>Allocation: new nodes without children join the set.\<close>

lemma frame_append:
  assumes "closed h S" and "\<forall>n\<in>set ns. Content n = [] \<and> Kind n \<noteq> DocumentNode"
  shows "frame S h (h @ ns)"
  unfolding frame_def
proof (intro conjI)
  show "closed (h @ ns) (S \<union> {length h..<length (h @ ns)})"
    using assms by (auto simp: closed_def nth_append)
  show "docfree h S \<longrightarrow>
    (\<forall>b<length h. Column ((h @ ns) ! b) = Column (h ! b)) \<and>
    docfree (h @ ns) (S \<union> {length h..<length (h @ ns)})"
    using assms by (auto simp: docfree_def closed_def nth_append)
qed (auto simp: nth_append)

lemma scanPairs_Found: "scanPairs h cs key = Found k v \<Longrightarrow> k \<in> set cs \<and> v \<in> set cs"
  by (induction h cs key rule: scanPairs.induct) (auto split: if_splits)

lemma frame_createOrReuseNode:
  assumes "createOrReuseNode node i oc bi h = (e, h1)" and "closed h S" and "set oc \<subseteq> S"
  shows "frame S h h1 \<and> e \<in> S \<union> {length h..<length h1}"
proof (cases "i < length oc")
  case True
  then show ?thesis using assms by (auto simp: createOrReuseNode_def frame_refl)
next
  case False
  then obtain n where n: "h1 = h @ [n]" "e = length h" "Content n = []" "Kind n = ZeroKind"
    using assms(1) by (auto simp: createOrReuseNode_def Let_def zeroNode_def split: if_splits)
  have "frame S h (h @ [n])" by (rule frame_append) (use assms(2) n in auto)
  then show ?thesis using n by simp
qed

lemma frame_createOrReusePair:
  assumes "createOrReusePair node key oc bi h = Some ((k, v), h1)" and "closed h S" and "set oc \<subseteq> S"
  shows "frame S h h1 \<and> k \<in> S \<union> {length h..<length h1} \<and> v \<in> S \<union> {length h..<length h1}"
proof (cases "scanPairs h oc key")
  case (Found k' v')
  then show ?thesis using assms scanPairs_Found[OF Found]
    by (auto simp: createOrReusePair_def frame_refl)
next
  case NotFound
  then obtain n1 n2 where n: "h1 = h @ [n1, n2]" "k = length h" "v = Suc (length h)"
      "Content n1 = []" "Content n2 = []" "Kind n1 = ScalarNode" "Kind n2 = ZeroKind"
    using assms(1) by (auto simp: createOrReusePair_def Let_def zeroNode_def split: if_splits)
  have "frame S h (h @ [n1, n2])" by (rule frame_append) (use assms(2) n in auto)
  then show ?thesis using n by simp
next
  case FindPanic
  then show ?thesis using assms(1) by (simp add: createOrReusePair_def)
qed

lemma appendPair_shape:
  assumes "appendPair m key h = Some ((k, v), h1)"
  shows "\<exists>n1 n2. k = length h \<and> v = Suc (length h) \<and>
           Content n1 = [] \<and> Content n2 = [] \<and> Kind n1 = ScalarNode \<and> Kind n2 = ZeroKind \<and>
           Value n1 = key \<and>
           h1 = (h @ [n1, n2])[m := ((h @ [n1, n2]) ! m)\<lparr>Content := Content (h ! m) @ [length h, Suc (length h)]\<rparr>]"
proof (cases "length (Content (h ! m)) > 0")
  case True
  let ?cs = "Content (h ! m)"
  let ?n1 = "zeroNode\<lparr>Kind := ScalarNode, Tag := ''!!str'', Value := key,
               Style := Style (h ! (?cs ! 0)), Column := Column (h ! (?cs ! 0))\<rparr>"
  let ?n2 = "zeroNode\<lparr>Style := Style (h ! (?cs ! 1)), Column := Column (h ! (?cs ! 1))\<rparr>"
  have 2: "\<not> length ?cs < 2" using assms True by (simp add: appendPair_def Let_def split: if_splits)
  have "k = length h \<and> v = Suc (length h) \<and>
        h1 = (h @ [?n1, ?n2])[m := ((h @ [?n1, ?n2]) ! m)\<lparr>Content := ?cs @ [length h, Suc (length h)]\<rparr>]"
    using assms True 2 by (auto simp: appendPair_def Let_def)
  moreover have "Content ?n1 = [] \<and> Content ?n2 = [] \<and> Kind ?n1 = ScalarNode \<and> Kind ?n2 = ZeroKind \<and> Value ?n1 = key"
    by (simp add: zeroNode_def)
  ultimately show ?thesis by blast
next
  case False
  let ?cs = "Content (h ! m)"
  let ?n1 = "zeroNode\<lparr>Kind := ScalarNode, Tag := ''!!str'', Value := key,
               Column := Column (h ! m) + 2\<rparr>"
  let ?n2 = "zeroNode\<lparr>Column := Column (h ! m) + 2\<rparr>"
  have "k = length h \<and> v = Suc (length h) \<and>
        h1 = (h @ [?n1, ?n2])[m := ((h @ [?n1, ?n2]) ! m)\<lparr>Content := ?cs @ [length h, Suc (length h)]\<rparr>]"
    using assms False by (auto simp: appendPair_def Let_def)
  moreover have "Content ?n1 = [] \<and> Content ?n2 = [] \<and> Kind ?n1 = ScalarNode \<and> Kind ?n2 = ZeroKind \<and> Value ?n1 = key"
    by (simp add: zeroNode_def)
  ultimately show ?thesis by blast
qed

lemma frame_appendPair:
  assumes "appendPair m key h = Some ((k, v), h1)" and "closed h S" and "m \<in> S"
  shows "frame S h h1 \<and> v \<in> S \<union> {length h..<length h1}"
proof -
  obtain n1 n2 where n: "h1 = (h @ [n1, n2])[m := ((h @ [n1, n2]) ! m)\<lparr>Content := Content (h ! m) @ [length h, Suc (length h)]\<rparr>]"
      "k = length h" "v = Suc (length h)"
      "Content n1 = []" "Content n2 = []" "Kind n1 = ScalarNode" "Kind n2 = ZeroKind"
    using appendPair_shape[OF assms(1)] by blast
  let ?h0 = "h @ [n1, n2]"
  have ml: "m < length h" using assms(2,3) by (simp add: closed_def)
  have f0: "frame S h ?h0" by (rule frame_append) (use assms(2) n in auto)
  have "frame S h (?h0[m := (?h0 ! m)\<lparr>Content := Content (h ! m) @ [length h, Suc (length h)]\<rparr>])"
  proof (rule frame_then_update[OF f0 assms(3,2)])
    show "set (Content ((?h0 ! m)\<lparr>Content := Content (h ! m) @ [length h, Suc (length h)]\<rparr>))
            \<subseteq> S \<union> {length h..<length ?h0}"
      using closedD[OF assms(2,3)] by auto
  qed (use ml in \<open>auto simp: nth_append\<close>)
  then show ?thesis using n by simp
qed

lemma colStep_refl: "colStep S h h"
  by (simp add: colStep_def)

lemma colStep_trans: "colStep S h h1 \<Longrightarrow> colStep S h1 h2 \<Longrightarrow> colStep S h h2"
  by (simp add: colStep_def)

lemma colStep_closed: "colStep S h h' \<Longrightarrow> closed h S \<Longrightarrow> closed h' S"
  by (simp add: colStep_def closed_def)

lemma colStep_column: "a \<in> S \<Longrightarrow> colStep S h (h[a := (h ! a)\<lparr>Column := c\<rparr>])"
  by (auto simp: colStep_def nth_upd)

lemma adjust_colStep:
  "adjustNodeColumns d a off h = Some h' \<Longrightarrow> a \<in> S \<Longrightarrow> closed h S \<Longrightarrow> colStep S h h'"
  "adjustChildren d cs off h = Some h' \<Longrightarrow> set cs \<subseteq> S \<Longrightarrow> closed h S \<Longrightarrow> colStep S h h'"
proof (induction d a off h and d cs off h arbitrary: h' and h' rule: adjustNodeColumns_adjustChildren.induct)
  case (1 node offset h)
  then show ?case by simp
next
  case (2 depth node offset h)
  let ?h1 = "if sint (Column (h ! node)) > sint offset
                then h[node := (h ! node)\<lparr>Column := Column (h ! node) - offset\<rparr>] else h"
  have s1: "colStep S h ?h1" using 2(3) by (simp add: colStep_column colStep_refl)
  have c1: "closed ?h1 S" using s1 2(4) by (rule colStep_closed)
  have "set (Content (?h1 ! node)) \<subseteq> S" using c1 2(3) by (simp add: closed_def)
  moreover have "adjustChildren depth (Content (?h1 ! node)) offset ?h1 = Some h'"
    using 2(2) by (simp add: Let_def)
  ultimately have "colStep S ?h1 h'" using 2(1)[OF refl] c1 by blast
  with s1 show ?case by (rule colStep_trans)
next
  case (3 depth offset h)
  then show ?case by (simp add: colStep_refl)
next
  case (4 depth child rest offset h)
  from 4(3) obtain h1 where a: "adjustNodeColumns depth child offset h = Some h1"
    and b: "adjustChildren depth rest offset h1 = Some h'"
    by (auto split: option.splits)
  have s1: "colStep S h h1" using 4(1)[OF a] 4(4,5) by simp
  have "colStep S h1 h'" using 4(2)[OF a b] 4(4) colStep_closed[OF s1 4(5)] by simp
  with s1 show ?case by (rule colStep_trans)
qed

lemma frame_unwrapDocument:
  assumes u: "unwrapDocument node h = Unwrapped m h1" and n: "node \<in> S" and c: "closed h S"
  shows "frame S h h1 \<and> m \<in> S"
proof (cases "Kind (h ! node) = DocumentNode")
  case False
  then show ?thesis using u n c by (simp add: unwrapDocument_def frame_refl)
next
  case True
  let ?m = "Content (h ! node) ! 0"
  let ?h1 = "h[node := (h ! node)\<lparr>Column := 0\<rparr>]"
  let ?h2 = "?h1[?m := (?h1 ! ?m)\<lparr>Column := 0\<rparr>]"
  have one: "length (Content (h ! node)) = 1"
    using u True by (auto simp: unwrapDocument_def split: if_splits)
  then have mS: "?m \<in> S" using closedD[OF c n] by (metis nth_mem subsetD zero_less_one)
  have a: "adjustNodeColumns (length ?h2) ?m (Column (h ! ?m)) ?h2 = Some h1" and mm: "m = ?m"
    using u True one by (auto simp: unwrapDocument_def Let_def split: option.splits)
  have s1: "colStep S h ?h1" using n by (rule colStep_column)
  have s2: "colStep S ?h1 ?h2" using mS by (rule colStep_column)
  have s12: "colStep S h ?h2" using s1 s2 by (rule colStep_trans)
  have "colStep S ?h2 h1" using adjust_colStep(1)[OF a mS] colStep_closed[OF s12 c] by simp
  with s12 have s: "colStep S h h1" by (rule colStep_trans)
  have nd: "\<not> docfree h S" using True n by (auto simp: docfree_def)
  have "frame S h h1" unfolding frame_def
    using s nd colStep_closed[OF s c] by (simp add: colStep_def)
  then show ?thesis using mS mm by simp
qed

lemma resFrame_step:
  assumes "frame S h h1"
    and "closed h1 (S \<union> {length h..<length h1}) \<Longrightarrow> resFrame (S \<union> {length h..<length h1}) h1 r"
  shows "resFrame S h r"
  using assms resFrame_trans frame_closed by blast

lemma resFrameC_step:
  assumes "frame S h h1"
    and "closed h1 (S \<union> {length h..<length h1}) \<Longrightarrow> resFrameC (S \<union> {length h..<length h1}) h1 r"
  shows "resFrameC S h r"
  using assms resFrameC_trans frame_closed by blast

lemma resFrame_Err: "resFrame S h (Err e h1) \<Longrightarrow> resFrame S h (Err e' h1)"
  by simp


lemma merge_frame:
  "node \<in> S \<Longrightarrow> closed h S \<Longrightarrow> resFrame S h (updateNode ro node v h)"
  "node \<in> S \<Longrightarrow> closed h S \<Longrightarrow> resFrame S h (updateYamlFromStruct node data h)"
  "node \<in> S \<Longrightarrow> closed h S \<Longrightarrow> resFrame S h (structLoop node fs h)"
  "node \<in> S \<Longrightarrow> closed h S \<Longrightarrow> resFrame S h (updateField node f h)"
  "node \<in> S \<Longrightarrow> closed h S \<Longrightarrow> resFrame S h (mapLoop node es h)"
  "node \<in> S \<Longrightarrow> closed h S \<Longrightarrow> resFrame S h (updateSequence ro node vs h)"
  "node \<in> S \<Longrightarrow> closed h S \<Longrightarrow> set oc \<subseteq> S \<Longrightarrow> set acc \<subseteq> S \<Longrightarrow>
     resFrameC S h (seqLoop ro node i vs oc bi acc h)"
  "node \<in> S \<Longrightarrow> closed h S \<Longrightarrow> resFrame S h (updateMapping ro node es h)"
  "node \<in> S \<Longrightarrow> closed h S \<Longrightarrow> set oc \<subseteq> S \<Longrightarrow> set acc \<subseteq> S \<Longrightarrow>
     resFrameC S h (mappingLoop ro node es oc bi acc h)"
proof (induction ro node v h and node data h and node fs h and node f h and node es h
        and ro node vs h and ro node i vs oc bi acc h and ro node es h and ro node es oc bi acc h
        arbitrary: S and S and S and S and S and S and S and S and S
        rule: merge_induct)
  case (1 ro node v h)
  then show ?case by simp
next
  case (2 ro node h)
  then show ?case by (simp add: frame_restore frame_refl)
next
  case (3 ro node fs h)
  show ?case
  proof (cases ro)
    case False
    then show ?thesis using 3(1)[OF False 3(2,3)] 3(2,3)
      by (cases "updateYamlFromStruct node (VStruct fs) h") (simp_all add: frame_restore)
  qed simp
next
  case (4 ro node vs h)
  then show ?case using 4(1)[OF 4(2,3)]
    by (cases "updateSequence ro node vs h") (simp_all add: frame_restore)
next
  case (5 ro node ks es h)
  then show ?case using 5(1)[OF 5(2,3)]
    by (cases "updateMapping ro node es h") (simp_all add: frame_restore)
next
  case (6 ro node i h)
  then show ?case by (simp add: frame_restore frame_setScalar)
next
  case (7 ro node t h)
  then show ?case by (simp add: frame_restore frame_setScalar)
next
  case (8 ro node b h)
  then show ?case by (simp add: frame_restore frame_setScalar)
next
  case (9 ro node s h)
  then show ?case by (simp add: frame_restore frame_setScalar)
next
  case (10 ro node t h)
  then show ?case by (simp add: frame_restore frame_setScalar)
next
  case (11 ro node t p h)
  then show ?case by (simp add: frame_restore frame_setScalar)
next
  case (12 ro node n h)
  then show ?case by (simp add: frame_restore frame_setScalar)
next
  case (13 node data h)
  note n = 13(3) and c = 13(4)
  have step: "resFrame S h r"
    if u: "unwrapDocument node h = Unwrapped m h1"
      and r: "\<And>S'. m \<in> S' \<Longrightarrow> closed (asMapping m h1) S' \<Longrightarrow> resFrame S' (asMapping m h1) r"
    for m h1 r
  proof -
    have f1: "frame S h h1" and mS: "m \<in> S" using frame_unwrapDocument[OF u n c] by simp_all
    let ?S1 = "S \<union> {length h..<length h1}"
    have "frame ?S1 h1 (asMapping m h1)"
      using mS frame_closed[OF f1] by (intro frame_asMapping) auto
    with f1 have f2: "frame S h (asMapping m h1)" by (rule frame_trans)
    show ?thesis using mS by (intro resFrame_step[OF f2] r) auto
  qed
  have stepE: "resFrame S h (Err e (asMapping m h1))"
    if u: "unwrapDocument node h = Unwrapped m h1" for m h1 e
    by (rule step[OF u]) (simp add: frame_refl)
  show ?case
  proof (cases rule: updateYamlFromStruct_cases[of node h data])
    case Bad
    then show ?thesis using c by (simp add: frame_refl)
  next
    case Endless
    then show ?thesis by simp
  next
    case (Struct m h1 fs)
    show ?thesis unfolding Struct(3)
      by (rule step[OF Struct(1)]) (rule 13(1)[OF Struct(1) refl Struct(2) refl])
  next
    case (Map m h1 es)
    show ?thesis unfolding Map(3)
      by (rule step[OF Map(1)]) (rule 13(2)[OF Map(1) refl Map(2) refl], simp)
  next
    case (KeyErr m h1 es)
    then show ?thesis using stepE by simp
  next
    case (Other m h1)
    then show ?thesis using stepE by simp
  qed
next
  case (14 mappingNode h)
  then show ?case by (simp add: frame_refl)
next
  case (15 mappingNode f fs h)
  note n = 15(3) and c = 15(4)
  show ?case
  proof (cases "updateField mappingNode f h")
    case (Ok u h1)
    have f1: "frame S h h1" using 15(1)[OF n c] Ok by simp
    have "resFrame S h (structLoop mappingNode fs h1)"
      using n by (intro resFrame_step[OF f1] 15(2)[OF Ok]) auto
    then show ?thesis using Ok by simp
  next
    case (Err e h1)
    then show ?thesis using 15(1)[OF n c] by simp
  qed simp
next
  case (16 mappingNode name tag exported v h)
  note n = 16(3) and c = 16(4)
  let ?tag = "if tag = [] then name else tag"
  show ?case
  proof (cases "findNodes h mappingNode ?tag")
    case (Found k vn)
    have "vn \<in> S" using scanPairs_Found[OF Found[unfolded findNodes_def]] closedD[OF c n] by auto
    then show ?thesis using Found 16(1)[OF refl Found _ c] by (simp add: Let_def)
  next
    case NotFound
    show ?thesis
    proof (cases "appendPair mappingNode ?tag h")
      case None
      then show ?thesis using NotFound by (simp add: Let_def)
    next
      case (Some x)
      obtain kn vn h1 where x: "x = ((kn, vn), h1)" by (metis prod.collapse)
      have f1: "frame S h h1" and vS: "vn \<in> S \<union> {length h..<length h1}"
        using frame_appendPair[OF Some[unfolded x] c n] by simp_all
      have "resFrame S h (updateNode (\<not> exported) vn v h1)"
        using vS by (intro resFrame_step[OF f1] 16(2)[OF refl NotFound Some[unfolded x] refl refl])
      then show ?thesis using NotFound Some x by (simp add: Let_def)
    qed
  next
    case FindPanic
    then show ?thesis by (simp add: Let_def)
  qed
next
  case (17 mappingNode h)
  then show ?case by (simp add: frame_refl)
next
  case (18 mappingNode keyStr v es h)
  note n = 18(5) and c = 18(6)
  have loop: "resFrame S h (case updateNode False vn v h1 of
             Panic c \<Rightarrow> Panic c
           | Err e h2 \<Rightarrow> Err (MapValueError keyStr e) h2
           | Ok u h2 \<Rightarrow> mapLoop mappingNode es h2)"
    if f1: "frame S h h1" and vS: "vn \<in> S \<union> {length h..<length h1}"
      and i1: "\<And>S'. vn \<in> S' \<Longrightarrow> closed h1 S' \<Longrightarrow> resFrame S' h1 (updateNode False vn v h1)"
      and i2: "\<And>S' u h2. updateNode False vn v h1 = Ok u h2 \<Longrightarrow> mappingNode \<in> S' \<Longrightarrow> closed h2 S'
                 \<Longrightarrow> resFrame S' h2 (mapLoop mappingNode es h2)"
    for vn h1
  proof -
    let ?S1 = "S \<union> {length h..<length h1}"
    have c1: "closed h1 ?S1" using f1 by (rule frame_closed)
    have r1: "resFrame ?S1 h1 (updateNode False vn v h1)" using i1[OF vS c1] .
    show ?thesis
    proof (cases "updateNode False vn v h1")
      case (Ok u h2)
      have f2: "frame ?S1 h1 h2" using r1 Ok by simp
      have "resFrame ?S1 h1 (mapLoop mappingNode es h2)"
        using n by (intro resFrame_step[OF f2] i2[OF Ok]) auto
      then show ?thesis using Ok resFrame_trans[OF f1] by simp
    next
      case (Err e h2)
      then show ?thesis using r1 by (auto intro: frame_trans[OF f1])
    qed simp
  qed
  show ?case
  proof (cases "findNodes h mappingNode keyStr")
    case (Found k vn)
    have vS: "vn \<in> S \<union> {length h..<length h}"
      using scanPairs_Found[OF Found[unfolded findNodes_def]] closedD[OF c n] by auto
    show ?thesis using Found loop[OF frame_refl[OF c] vS 18(1)[OF Found] 18(2)[OF Found]]
      by simp
  next
    case NotFound
    show ?thesis
    proof (cases "appendPair mappingNode keyStr h")
      case None
      then show ?thesis using NotFound by simp
    next
      case (Some x)
      obtain kn vn h1 where x: "x = ((kn, vn), h1)" by (metis prod.collapse)
      have f1: "frame S h h1" and vS: "vn \<in> S \<union> {length h..<length h1}"
        using frame_appendPair[OF Some[unfolded x] c n] by simp_all
      show ?thesis using NotFound Some x
          loop[OF f1 vS 18(3)[OF NotFound Some[unfolded x] refl refl]
                 18(4)[OF NotFound Some[unfolded x] refl refl]]
        by simp
    qed
  next
    case FindPanic
    then show ?thesis by simp
  qed
next
  case (19 ro node vs h)
  note n = 19(2) and c = 19(3)
  let ?h1 = "retag node SequenceNode ''!!seq'' h"
  let ?oc = "Content (h ! node)"
  let ?r = "seqLoop ro node 0 vs ?oc (baseIndentOf node ?oc ?h1) [] ?h1"
  have f1: "frame S h ?h1" using n c by (simp add: frame_retag)
  have oc: "set ?oc \<subseteq> S" using closedD[OF c n] by simp
  have r: "resFrameC S h ?r"
    using n oc by (intro resFrameC_step[OF f1] 19(1)[OF refl refl refl refl refl]) auto
  show ?case
  proof (cases ?r)
    case (Ok cs h2)
    then show ?thesis using r n c by (simp add: updateSequence.simps Let_def frame_finish)
  next
    case (Err e h2)
    then show ?thesis using r by (simp add: updateSequence.simps Let_def)
  next
    case (Panic x)
    then show ?thesis by (simp add: updateSequence.simps Let_def)
  qed
next
  case (20 ro node i originalContent baseIndent newContent h)
  then show ?case by (auto simp: frame_refl)
next
  case (21 ro node i v vs originalContent baseIndent newContent h)
  note n = 21(3) and c = 21(4) and oc = 21(5) and acc = 21(6)
  obtain e h1 where cr: "createOrReuseNode node i originalContent baseIndent h = (e, h1)"
    by (metis prod.collapse)
  have f1: "frame S h h1" and eS: "e \<in> S \<union> {length h..<length h1}"
    using frame_createOrReuseNode[OF cr c oc] by simp_all
  let ?S1 = "S \<union> {length h..<length h1}"
  have c1: "closed h1 ?S1" using f1 by (rule frame_closed)
  have r1: "resFrame ?S1 h1 (updateNode ro e v h1)" using 21(1)[OF cr[symmetric] eS c1] .
  have "resFrameC ?S1 h1 (case updateNode ro e v h1 of
             Panic c \<Rightarrow> Panic c
           | Err e' h2 \<Rightarrow> Err (SequenceElemError i e') h2
           | Ok u h2 \<Rightarrow>
               seqLoop ro node (Suc i) vs originalContent baseIndent (newContent @ [e]) h2)"
  proof (cases "updateNode ro e v h1")
    case (Ok u h2)
    have f2: "frame ?S1 h1 h2" using r1 Ok by simp
    have "resFrameC ?S1 h1 (seqLoop ro node (Suc i) vs originalContent baseIndent (newContent @ [e]) h2)"
      using n oc acc eS by (intro resFrameC_step[OF f2] 21(2)[OF cr[symmetric] Ok]) auto
    then show ?thesis using Ok by simp
  next
    case (Err e' h2)
    then show ?thesis using r1 by simp
  qed simp
  then show ?case using cr resFrameC_trans[OF f1] by simp
next
  case (22 ro node es h)
  note n = 22(2) and c = 22(3)
  let ?h1 = "retag node MappingNode ''!!map'' h"
  let ?oc = "Content (h ! node)"
  let ?r = "mappingLoop ro node es ?oc (baseIndentOf node ?oc ?h1) [] ?h1"
  have f1: "frame S h ?h1" using n c by (simp add: frame_retag)
  have oc: "set ?oc \<subseteq> S" using closedD[OF c n] by simp
  have r: "resFrameC S h ?r"
    using n oc by (intro resFrameC_step[OF f1] 22(1)[OF refl refl refl refl refl]) auto
  show ?case
  proof (cases ?r)
    case (Ok cs h2)
    then show ?thesis using r n c by (simp add: updateMapping.simps Let_def frame_finish)
  next
    case (Err e h2)
    then show ?thesis using r by (simp add: updateMapping.simps Let_def)
  next
    case (Panic x)
    then show ?thesis by (simp add: updateMapping.simps Let_def)
  qed
next
  case (23 ro node originalContent baseIndent newContent h)
  then show ?case by (auto simp: frame_refl)
next
  case (24 ro node key v es originalContent baseIndent newContent h)
  note n = 24(3) and c = 24(4) and oc = 24(5) and acc = 24(6)
  show ?case
  proof (cases ro)
    case True
    then show ?thesis by simp
  next
    case False
    show ?thesis
    proof (cases "createOrReusePair node key originalContent baseIndent h")
      case None
      then show ?thesis using False by simp
    next
      case (Some x)
      obtain kn vn h1 where x: "x = ((kn, vn), h1)" by (metis prod.collapse)
      have f1: "frame S h h1" and kS: "kn \<in> S \<union> {length h..<length h1}"
        and vS: "vn \<in> S \<union> {length h..<length h1}"
        using frame_createOrReusePair[OF Some[unfolded x] c oc] by simp_all
      let ?S1 = "S \<union> {length h..<length h1}"
      have c1: "closed h1 ?S1" using f1 by (rule frame_closed)
      have r1: "resFrame ?S1 h1 (updateNode ro vn v h1)"
        using 24(1)[OF False Some[unfolded x] refl refl vS c1] .
      have "resFrameC ?S1 h1 (case updateNode ro vn v h1 of
                  Panic c \<Rightarrow> Panic c
                | Err e h2 \<Rightarrow> Err (MappingValueError e) h2
                | Ok u h2 \<Rightarrow>
                    mappingLoop ro node es originalContent baseIndent
                      (newContent @ [kn, vn]) h2)"
      proof (cases "updateNode ro vn v h1")
        case (Ok u h2)
        have f2: "frame ?S1 h1 h2" using r1 Ok by simp
        have "resFrameC ?S1 h1 (mappingLoop ro node es originalContent baseIndent (newContent @ [kn, vn]) h2)"
          using n oc acc kS vS
          by (intro resFrameC_step[OF f2] 24(2)[OF False Some[unfolded x] refl refl Ok]) auto
        then show ?thesis using Ok by simp
      next
        case (Err e' h2)
        then show ?thesis using r1 by simp
      qed simp
      moreover have "ro = False" using False by simp
      ultimately show ?thesis using Some x resFrameC_trans[OF f1]
        by (simp cong: res.case_cong)
    qed
  qed
qed

subsection \<open>The children of a merged sequence\<close>

lemma updateNode_length: "updateNode ro node v h = Ok u h' \<Longrightarrow> length h \<le> length h'"
  using merge_mono(1)[of h ro node v] by (simp add: mono_def)

lemma seqLoop_content:
  "seqLoop ro node i vs oc bi acc h = Ok cs h' \<Longrightarrow>
   \<exists>F. cs = acc @ take (length vs) (drop i oc) @ F \<and> length F = length vs - (length oc - i) \<and>
       distinct F \<and> set F \<subseteq> {length h..<length h'} \<and> length h \<le> length h'"
proof (induction vs arbitrary: i acc h)
  case Nil
  then show ?case by simp
next
  case (Cons v vs)
  obtain e h1 where cr: "createOrReuseNode node i oc bi h = (e, h1)" by (metis prod.collapse)
  from Cons.prems cr obtain u h2 where up: "updateNode ro e v h1 = Ok u h2"
    and rest: "seqLoop ro node (Suc i) vs oc bi (acc @ [e]) h2 = Ok cs h'"
    by (auto split: res.splits)
  have l12: "length h1 \<le> length h2" using up by (rule updateNode_length)
  from Cons.IH[OF rest] obtain F where F: "cs = (acc @ [e]) @ take (length vs) (drop (Suc i) oc) @ F"
    "length F = length vs - (length oc - Suc i)" "distinct F" "set F \<subseteq> {length h2..<length h'}"
    "length h2 \<le> length h'" by blast
  show ?case
  proof (cases "i < length oc")
    case True
    then have e: "e = oc ! i" "h1 = h" using cr by (simp_all add: createOrReuseNode_def)
    have t: "take (Suc (length vs)) (drop i oc) = oc ! i # take (length vs) (drop (Suc i) oc)"
      using True by (simp add: Cons_nth_drop_Suc[symmetric])
    have "cs = acc @ take (length (v # vs)) (drop i oc) @ F" using F(1) e t by simp
    moreover have "length F = length (v # vs) - (length oc - i)" using F(2) True by simp
    moreover have "set F \<subseteq> {length h..<length h'}" using F(4) l12 e by auto
    ultimately show ?thesis using F(3,5) l12 e by auto
  next
    case False
    then have e: "e = length h" "length h1 = Suc (length h)"
      using cr by (auto simp: createOrReuseNode_def Let_def split: if_splits)
    have d: "drop i oc = []" "drop (Suc i) oc = []" using False by simp_all
    have "cs = acc @ take (length (v # vs)) (drop i oc) @ (e # F)" using F(1) d by simp
    moreover have "length (e # F) = length (v # vs) - (length oc - i)" using F(2) False by simp
    moreover have "distinct (e # F)" using F(3,4) e l12 by auto
    moreover have "set (e # F) \<subseteq> {length h..<length h'}" using F(4,5) e l12 by auto
    ultimately show ?thesis using F(5) l12 e by (intro exI[of _ "e # F"]) auto
  qed
qed

lemma updateSequence_content:
  assumes "node < length h" and "updateSequence ro node vs h = Ok u h'"
  shows "\<exists>F. Content (h' ! node) = take (length vs) (Content (h ! node)) @ F \<and>
           length F = length vs - length (Content (h ! node)) \<and>
           distinct F \<and> set F \<subseteq> {length h..<length h'}"
proof -
  let ?h1 = "retag node SequenceNode ''!!seq'' h"
  let ?oc = "Content (h ! node)"
  from assms(2) obtain cs h2 where
    l: "seqLoop ro node 0 vs ?oc (baseIndentOf node ?oc ?h1) [] ?h1 = Ok cs h2"
    and h': "h' = finish node cs (Style (h ! node)) (Column (h ! node)) h2"
    by (auto simp: updateSequence.simps Let_def split: res.splits)
  from seqLoop_content[OF l] obtain F where F: "cs = take (length vs) ?oc @ F"
    "length F = length vs - length ?oc" "distinct F" "set F \<subseteq> {length ?h1..<length h2}"
    "length ?h1 \<le> length h2" by auto
  have "node < length h2" using assms(1) F(5) by (simp add: retag_def)
  then have "Content (h' ! node) = cs" using h' by (simp add: finish_def)
  moreover have "length h' = length h2" using h' by (simp add: finish_def)
  ultimately show ?thesis using F by (auto simp: retag_def)
qed

subsection \<open>A new pair\<close>

text \<open>A call of updateNode that returns nil has put back the style and the column.\<close>

lemma updateNode_restores:
  "updateNode ro node v h = Ok u h' \<Longrightarrow> node < length h \<Longrightarrow>
   Style (h' ! node) = Style (h ! node) \<and> Column (h' ! node) = Column (h ! node)"
proof (induction "size v" arbitrary: v rule: less_induct)
  case less
  have r: "Style (restore node (Style (h ! node)) (Column (h ! node)) h1 ! node) = Style (h ! node) \<and>
           Column (restore node (Style (h ! node)) (Column (h ! node)) h1 ! node) = Column (h ! node)"
    if "length h \<le> length h1" for h1
    using that less.prems(2) by (simp add: restore_def)
  show ?case
  proof (cases v)
    case (VIface x)
    show ?thesis
    proof (cases x)
      case None
      then show ?thesis using VIface less.prems r[of h] by auto
    next
      case (Some w)
      then show ?thesis using VIface less.prems less.hyps[of w] by simp
    qed
  next
    case (VStruct fs)
    then obtain h1 where "updateYamlFromStruct node (VStruct fs) h = Ok () h1"
      and "h' = restore node (Style (h ! node)) (Column (h ! node)) h1"
      using less.prems(1) by (auto split: if_splits res.splits)
    then show ?thesis using r[of h1] merge_mono(2)[of h node "VStruct fs"] by (simp add: mono_def)
  next
    case (VSlice vs)
    then obtain h1 where "updateSequence ro node vs h = Ok () h1"
      and "h' = restore node (Style (h ! node)) (Column (h ! node)) h1"
      using less.prems(1) by (auto split: if_splits res.splits)
    then show ?thesis using r[of h1] merge_mono(6)[of h ro node vs] by (simp add: mono_def)
  next
    case (VMap ks es)
    then obtain h1 where "updateMapping ro node es h = Ok () h1"
      and "h' = restore node (Style (h ! node)) (Column (h ! node)) h1"
      using less.prems(1) by (auto split: if_splits res.splits)
    then show ?thesis using r[of h1] merge_mono(8)[of h ro node es] by (simp add: mono_def)
  qed (use less.prems r in \<open>auto simp: setScalar_def split: if_splits\<close>)
qed

lemma frame_same: "frame S h h' \<Longrightarrow> b < length h \<Longrightarrow> b \<notin> S \<Longrightarrow> h' ! b = h ! b"
  by (simp add: frame_def)

lemma updateNode_frame:
  assumes "updateNode ro node v h = Ok u h'" and "node \<in> S" and "closed h S"
  shows "frame S h h'"
  using merge_frame(1)[OF assms(2,3), of ro v] assms(1) by simp

lemma updateField_NotFound:
  assumes "findNodes h mappingNode (yamlKey name tag) = NotFound"
    and "updateField mappingNode (Field name tag exported v) h = Ok u h'"
  shows "\<exists>h1. appendPair mappingNode (yamlKey name tag) h = Some ((length h, Suc (length h)), h1) \<and>
           updateNode (\<not> exported) (Suc (length h)) v h1 = Ok u h'"
proof -
  from assms obtain kn vn h1 where a: "appendPair mappingNode (yamlKey name tag) h = Some ((kn, vn), h1)"
    and u: "updateNode (\<not> exported) vn v h1 = Ok u h'"
    by (auto simp: Let_def yamlKey_def split: option.splits)
  then show ?thesis using appendPair_shape[OF a] by auto
qed

text \<open>The new pair as appendPair makes it.\<close>

lemma appendPair_nodes:
  assumes "appendPair m key h = Some ((k, v), h1)" and "m < length h"
  shows "length h1 = length h + 2 \<and> Content (h1 ! m) = Content (h ! m) @ [k, v] \<and>
         Content (h1 ! v) = [] \<and>
         Kind (h1 ! k) = ScalarNode \<and> Tag (h1 ! k) = ''!!str'' \<and> Value (h1 ! k) = key \<and>
         (if Content (h ! m) \<noteq> []
          then Style (h1 ! k) = Style (h ! (Content (h ! m) ! 0)) \<and>
               Column (h1 ! k) = Column (h ! (Content (h ! m) ! 0)) \<and>
               Style (h1 ! v) = Style (h ! (Content (h ! m) ! 1)) \<and>
               Column (h1 ! v) = Column (h ! (Content (h ! m) ! 1))
          else Style (h1 ! k) = 0 \<and> Column (h1 ! k) = Column (h ! m) + 2 \<and>
               Style (h1 ! v) = 0 \<and> Column (h1 ! v) = Column (h ! m) + 2)"
  using assms
  by (auto simp: appendPair_def Let_def nth_upd nth_append zeroNode_def split: if_splits)

lemma res_case_Ok:
  "(case r of Ok u h \<Rightarrow> P h | Err e h \<Rightarrow> False | Panic c \<Rightarrow> False) \<Longrightarrow> \<exists>h. r = Ok () h \<and> P h"
  by (cases r) auto

subsection \<open>The keys of a merged mapping\<close>

lemma evens_append2: "even (length xs) \<Longrightarrow> evens (xs @ [k, v]) = evens xs @ [k]"
  by (induction xs rule: evens.induct) auto






subsection \<open>A Document with a wrong number of children\<close>

lemma unwrapDocument_Bad:
  "unwrapDocument node h = BadDocument \<longleftrightarrow>
     Kind (h ! node) = DocumentNode \<and> length (Content (h ! node)) \<noteq> 1"
  by (auto simp: unwrapDocument_def Let_def split: if_splits option.splits)

subsection \<open>What a record merge keeps\<close>

lemma scanPairs_named:
  "scanPairs h cs key = Found k v \<Longrightarrow> sepNamed N h V cs \<Longrightarrow> key \<in> N \<Longrightarrow> v \<in> V \<and> k \<notin> V"
  by (induction h cs key rule: scanPairs.induct) (auto split: if_splits)

lemma sepNamed_append:
  "sepNamed N h V cs \<Longrightarrow> ka \<notin> V \<Longrightarrow> va \<in> V \<Longrightarrow> sepNamed N h V (cs @ [ka, va])"
  by (induction N h V cs rule: sepNamed.induct) auto

lemma sepNamed_step:
  "sepNamed N h S cs \<Longrightarrow> S \<subseteq> S1 \<Longrightarrow> \<forall>k\<in>set cs. k \<in> S1 \<longrightarrow> k \<in> S \<Longrightarrow>
   \<forall>k\<in>set cs. k \<notin> S \<longrightarrow> Value (h1 ! k) = Value (h ! k) \<Longrightarrow> sepNamed N h1 S1 cs"
  by (induction N h S cs rule: sepNamed.induct) auto

lemma pairsOf_append: "sepNamed N h V cs \<Longrightarrow> set (pairsOf cs) \<subseteq> set (pairsOf (cs @ extra))"
  by (induction N h V cs rule: sepNamed.induct) auto

lemma pairsOf_set: "(k, v) \<in> set (pairsOf cs) \<Longrightarrow> k \<in> set cs \<and> v \<in> set cs"
  by (induction cs rule: pairsOf.induct) auto

lemma pairsOf_sep: "(k, v) \<in> set (pairsOf cs) \<Longrightarrow> sepNamed N h V cs \<Longrightarrow> k \<notin> V"
  by (induction N h V cs rule: sepNamed.induct) auto

lemma kept_trans:
  assumes "kept m S h h1" and "kept m S1 h1 h2" and "S1 \<subseteq> S \<union> {length h..<length h1}"
    and "m < length h"
  shows "kept m S h h2"
proof -
  from assms(1) obtain e1 where 1: "length h \<le> length h1"
    "\<forall>b<length h. b \<notin> S \<longrightarrow> b \<noteq> m \<longrightarrow> h1 ! b = h ! b"
    "h1 ! m = (h ! m)\<lparr>Content := Content (h ! m) @ e1\<rparr>" "set e1 \<subseteq> {length h..<length h1}"
    unfolding kept_def by blast
  from assms(2) obtain e2 where 2: "length h1 \<le> length h2"
    "\<forall>b<length h1. b \<notin> S1 \<longrightarrow> b \<noteq> m \<longrightarrow> h2 ! b = h1 ! b"
    "h2 ! m = (h1 ! m)\<lparr>Content := Content (h1 ! m) @ e2\<rparr>" "set e2 \<subseteq> {length h1..<length h2}"
    unfolding kept_def by blast
  have a: "\<forall>b<length h. b \<notin> S \<longrightarrow> b \<noteq> m \<longrightarrow> h2 ! b = h ! b"
  proof (intro allI impI)
    fix b assume b: "b < length h" "b \<notin> S" "b \<noteq> m"
    then have "b \<notin> S1" using assms(3) by auto
    then have "h2 ! b = h1 ! b" using 2(2) b 1(1) by simp
    then show "h2 ! b = h ! b" using 1(2) b by simp
  qed
  have b: "h2 ! m = (h ! m)\<lparr>Content := Content (h ! m) @ (e1 @ e2)\<rparr>" using 1(3) 2(3) by simp
  have c: "set (e1 @ e2) \<subseteq> {length h..<length h2}" using 1(1,4) 2(1,4) by auto
  show ?thesis unfolding kept_def using 1(1) 2(1) a b c by (intro conjI exI[of _ "e1 @ e2"]) auto
qed

lemma frame_kept:
  assumes "frame S h h'" and "m \<notin> S" and "m < length h"
  shows "kept m S h h'"
  unfolding kept_def using assms
  by (intro conjI exI[of _ "[]"]) (auto simp: frame_def)

lemma updateField_keeps:
  assumes u: "updateField m (Field name tag exported v) h = Ok u h1"
    and cl: "closed h S" and mS: "m \<notin> S" and ml: "m < length h"
    and r: "set (Content (h ! m)) \<subseteq> {..<length h}"
    and sp: "sepNamed N h S (Content (h ! m))" and key: "yamlKey name tag \<in> N"
  shows "\<exists>S1. S \<subseteq> S1 \<and> S1 \<subseteq> S \<union> {length h..<length h1} \<and> closed h1 S1 \<and> kept m S h h1 \<and>
           sepNamed N h1 S1 (Content (h1 ! m))"
proof (cases "findNodes h m (yamlKey name tag)")
  case (Found k vn)
  have vS: "vn \<in> S" using scanPairs_named[OF Found[unfolded findNodes_def] sp key] by simp
  have up: "updateNode (\<not> exported) vn v h = Ok u h1"
    using u Found by (simp add: Let_def yamlKey_def)
  have f: "frame S h h1" using updateNode_frame[OF up vS cl] .
  let ?S1 = "S \<union> {length h..<length h1}"
  have k: "kept m S h h1" using frame_kept[OF f mS ml] .
  have m1: "h1 ! m = h ! m" using frame_same[OF f ml mS] .
  have "sepNamed N h1 ?S1 (Content (h ! m))"
  proof (rule sepNamed_step[OF sp])
    show "\<forall>k\<in>set (Content (h ! m)). k \<in> ?S1 \<longrightarrow> k \<in> S" using r by auto
    show "\<forall>k\<in>set (Content (h ! m)). k \<notin> S \<longrightarrow> Value (h1 ! k) = Value (h ! k)"
      using r frame_same[OF f] by auto
  qed simp
  then show ?thesis using frame_closed[OF f] k m1 by (intro exI[of _ ?S1]) auto
next
  case NotFound
  obtain h0 where a: "appendPair m (yamlKey name tag) h = Some ((length h, Suc (length h)), h0)"
    and up: "updateNode (\<not> exported) (Suc (length h)) v h0 = Ok u h1"
    using updateField_NotFound[OF NotFound u] by blast
  let ?ka = "length h" and ?va = "Suc (length h)"
  let ?cs = "Content (h ! m)"
  obtain n1 n2 where n: "h0 = (h @ [n1, n2])[m := ((h @ [n1, n2]) ! m)\<lparr>Content := ?cs @ [?ka, ?va]\<rparr>]"
      "Content n1 = []" "Content n2 = []"
    using appendPair_shape[OF a] by blast
  have l0: "length h0 = length h + 2" using n by simp
  have h0m: "h0 ! m = (h ! m)\<lparr>Content := ?cs @ [?ka, ?va]\<rparr>" using n ml by (simp add: nth_append)
  have h0b: "h0 ! b = h ! b" if "b < length h" "b \<noteq> m" for b using n that by (simp add: nth_append)
  have h0v: "Content (h0 ! ?va) = []" using n ml by (simp add: nth_append nth_upd)
  let ?S0 = "S \<union> {?va}"
  have SL: "S \<subseteq> {..<length h}" using cl by (auto simp: closed_def)
  have c0: "closed h0 ?S0"
    unfolding closed_def
  proof (intro ballI conjI)
    fix x assume x: "x \<in> ?S0"
    show "x < length h0" using x SL l0 by auto
    show "set (Content (h0 ! x)) \<subseteq> ?S0"
    proof (cases "x = ?va")
      case True
      then show ?thesis using h0v by simp
    next
      case False
      then have xS: "x \<in> S" using x by simp
      then have "x < length h" "x \<noteq> m" using SL mS by auto
      then have "h0 ! x = h ! x" by (rule h0b)
      then show ?thesis using closedD[OF cl xS] by auto
    qed
  qed
  have f: "frame ?S0 h0 h1" using updateNode_frame[OF up _ c0] by simp
  let ?S1 = "?S0 \<union> {length h0..<length h1}"
  have l01: "length h0 \<le> length h1" using f by (rule frame_length)
  have c1: "closed h1 ?S1" using f by (rule frame_closed)
  have m1: "h1 ! m = h0 ! m" using frame_same[OF f, of m] ml mS l0 by simp
  have sub: "?S1 \<subseteq> S \<union> {length h..<length h1}" using l0 l01 by auto
  have k: "kept m S h h1"
    unfolding kept_def
  proof (intro conjI allI impI exI[of _ "[?ka, ?va]"])
    show "length h \<le> length h1" using l0 l01 by simp
    show "h1 ! m = (h ! m)\<lparr>Content := ?cs @ [?ka, ?va]\<rparr>" using m1 h0m by simp
    show "set [?ka, ?va] \<subseteq> {length h..<length h1}" using l0 l01 by auto
  next
    fix b assume b: "b < length h" "b \<notin> S" "b \<noteq> m"
    then have "h1 ! b = h0 ! b" using frame_same[OF f, of b] l0 by simp
    then show "h1 ! b = h ! b" using h0b b by simp
  qed
  have vals: "Value (h1 ! k) = Value (h ! k)" if "k \<in> set ?cs" "k \<notin> S" for k
  proof -
    have kl: "k < length h" using r that by auto
    then have "h1 ! k = h0 ! k" using frame_same[OF f, of k] that l0 by simp
    then show ?thesis using h0b[OF kl] h0m by (cases "k = m") simp_all
  qed
  have s1: "sepNamed N h1 ?S1 ?cs"
  proof (rule sepNamed_step[OF sp])
    show "S \<subseteq> ?S1" by auto
    show "\<forall>k\<in>set ?cs. k \<in> ?S1 \<longrightarrow> k \<in> S" using r l0 by auto
    show "\<forall>k\<in>set ?cs. k \<notin> S \<longrightarrow> Value (h1 ! k) = Value (h ! k)" using vals by simp
  qed
  have "?ka \<notin> ?S1" using SL l0 by auto
  then have "sepNamed N h1 ?S1 (?cs @ [?ka, ?va])" using s1 by (intro sepNamed_append) auto
  then have "sepNamed N h1 ?S1 (Content (h1 ! m))" using m1 h0m by simp
  then show ?thesis using c1 k sub by (intro exI[of _ ?S1]) auto
next
  case FindPanic
  then show ?thesis using u by (simp add: Let_def yamlKey_def)
qed

lemma kept_children:
  "kept m S h h' \<Longrightarrow> set (Content (h ! m)) \<subseteq> {..<length h} \<Longrightarrow>
   set (Content (h' ! m)) \<subseteq> {..<length h'}"
  unfolding kept_def by fastforce

lemma structLoop_keeps:
  assumes "structLoop m fs h = Ok u h'"
    and "closed h S" and "m \<notin> S" and "m < length h"
    and "set (Content (h ! m)) \<subseteq> {..<length h}"
    and "sepNamed N h S (Content (h ! m))" and "fieldKeys fs \<subseteq> N"
  shows "kept m S h h'"
  using assms
proof (induction fs arbitrary: S h)
  case Nil
  then show ?case by (auto simp: kept_def intro: exI[of _ "[]"])
next
  case (Cons f fs)
  obtain name tag exported v where f: "f = Field name tag exported v" by (cases f)
  from Cons.prems(1) obtain h1 where uf: "updateField m f h = Ok () h1"
    and rest: "structLoop m fs h1 = Ok u h'"
    by (auto split: res.splits)
  have key: "yamlKey name tag \<in> N" using Cons.prems(7) f by (auto simp: fieldKeys_def)
  from updateField_keeps[OF uf[unfolded f] Cons.prems(2,3,4,5,6) key] obtain S1 where
    S1: "S \<subseteq> S1" "S1 \<subseteq> S \<union> {length h..<length h1}" "closed h1 S1" "kept m S h h1"
      "sepNamed N h1 S1 (Content (h1 ! m))" by blast
  have l: "length h \<le> length h1" using S1(4) by (simp add: kept_def)
  have m1: "m \<notin> S1" "m < length h1" using S1(2) Cons.prems(3,4) l by auto
  have r1: "set (Content (h1 ! m)) \<subseteq> {..<length h1}"
    using kept_children[OF S1(4) Cons.prems(5)] .
  have "fieldKeys fs \<subseteq> N" using Cons.prems(7) by (auto simp: fieldKeys_def)
  then have "kept m S1 h1 h'" using Cons.IH[OF rest S1(3) m1 r1 S1(5)] by simp
  then show ?case using kept_trans[OF S1(4) _ S1(2) Cons.prems(4)] by simp
qed

subsection \<open>A map merged at the top\<close>









subsection \<open>Columns below the Document node\<close>

lemma rootOf_in_addrs: "rootOf t \<in> set (addrs t)"
  by (cases t) simp

lemma shape_addrs: "shape h t \<Longrightarrow> set (addrs t) \<subseteq> {..<length h}"
  by (induction t) auto

lemma foldr_max_height:
  "\<forall>t\<in>set ts. height t \<le> length (addrs t) \<Longrightarrow>
   foldr max (map height ts) 0 \<le> length (concat (map addrs ts))"
  by (induction ts) (auto simp: max_def)

lemma height_le_addrs: "height t \<le> length (addrs t)"
proof (induction t)
  case (T a ts)
  then have "foldr max (map height ts) 0 \<le> length (concat (map addrs ts))"
    by (intro foldr_max_height) simp
  then show ?case by simp
qed

lemma isTree_height: "isTree h t \<Longrightarrow> height t \<le> length h"
proof -
  assume t: "isTree h t"
  then have "card (set (addrs t)) = length (addrs t)" by (simp add: isTree_def distinct_card)
  moreover have "card (set (addrs t)) \<le> card {..<length h}"
    using t shape_addrs by (intro card_mono) (auto simp: isTree_def)
  ultimately show ?thesis using height_le_addrs[of t] by simp
qed

lemma shape_closed: "shape h t \<Longrightarrow> closed h (set (addrs t))"
proof (induction t)
  case (T a ts)
  have c: "closed h (set (addrs t))" if "t \<in> set ts" for t using T that by auto
  have r: "rootOf t \<in> set (addrs (T a ts))" if "t \<in> set ts" for t
    using that rootOf_in_addrs[of t] by auto
  show ?case unfolding closed_def
  proof (intro ballI conjI)
    fix x assume x: "x \<in> set (addrs (T a ts))"
    show "x < length h" using shape_addrs[OF T.prems] x by auto
    show "set (Content (h ! x)) \<subseteq> set (addrs (T a ts))"
    proof (cases "x = a")
      case True
      then show ?thesis using T.prems r by auto
    next
      case False
      then obtain t where t: "t \<in> set ts" "x \<in> set (addrs t)" using x by auto
      then have "set (Content (h ! x)) \<subseteq> set (addrs t)" using c[OF t(1)] by (simp add: closed_def)
      then show ?thesis using t(1) by auto
    qed
  qed
qed

lemma shape_same:
  "shape h t \<Longrightarrow> length h' = length h \<Longrightarrow> \<forall>b<length h. Content (h' ! b) = Content (h ! b) \<Longrightarrow>
   shape h' t"
  by (induction t) auto

lemma shifted_shape: "shifted off A h h' \<Longrightarrow> shape h t \<Longrightarrow> shape h' t"
  by (rule shape_same) (auto simp: shifted_def)

lemma shifted_refl: "shifted off {} h h"
  by (simp add: shifted_def)

lemma shifted_trans:
  assumes "shifted off A h h1" and "shifted off B h1 h2" and "A \<inter> B = {}"
  shows "shifted off (A \<union> B) h h2"
  unfolding shifted_def
proof (intro conjI allI impI)
  show "length h2 = length h" using assms by (simp add: shifted_def)
next
  fix b assume b: "b < length h"
  have 1: "h1 ! b = (if b \<in> A then (h ! b)\<lparr>Column := shiftCol off (Column (h ! b))\<rparr> else h ! b)"
    using assms(1) b by (simp add: shifted_def)
  have 2: "h2 ! b = (if b \<in> B then (h1 ! b)\<lparr>Column := shiftCol off (Column (h1 ! b))\<rparr> else h1 ! b)"
    using assms(1,2) b by (simp add: shifted_def)
  show "h2 ! b = (if b \<in> A \<union> B then (h ! b)\<lparr>Column := shiftCol off (Column (h ! b))\<rparr> else h ! b)"
  proof (cases "b \<in> A")
    case True
    then have "b \<notin> B" using assms(3) by auto
    then show ?thesis using 1 2 True by simp
  next
    case False
    then show ?thesis using 1 2 by simp
  qed
qed

lemma shifted_one:
  assumes "a < length h"
  shows "shifted off {a} h (if sint (Column (h ! a)) > sint off
            then h[a := (h ! a)\<lparr>Column := Column (h ! a) - off\<rparr>] else h)"
  using assms by (auto simp: shifted_def shiftCol_def nth_upd)

lemma adjustChildren_tree:
  assumes ih: "\<And>t d h. t \<in> set ts \<Longrightarrow> shape h t \<Longrightarrow> distinct (addrs t) \<Longrightarrow> height t \<le> d \<Longrightarrow>
      \<exists>h'. adjustNodeColumns d (rootOf t) off h = Some h' \<and> shifted off (set (addrs t)) h h'"
    and "\<forall>t\<in>set ts. shape h t" and "distinct (concat (map addrs ts))"
    and "\<forall>t\<in>set ts. height t \<le> d"
  shows "\<exists>h'. adjustChildren d (map rootOf ts) off h = Some h' \<and>
           shifted off (set (concat (map addrs ts))) h h'"
  using assms
proof (induction ts arbitrary: h)
  case Nil
  then show ?case by (simp add: shifted_refl)
next
  case (Cons t ts)
  have "shape h t" "distinct (addrs t)" "height t \<le> d" using Cons.prems(2,3,4) by auto
  then have "\<exists>h'. adjustNodeColumns d (rootOf t) off h = Some h' \<and> shifted off (set (addrs t)) h h'"
    by (intro Cons.prems(1)) auto
  then obtain h1 where 1: "adjustNodeColumns d (rootOf t) off h = Some h1"
    "shifted off (set (addrs t)) h h1" by blast
  have s1: "\<forall>t\<in>set ts. shape h1 t" using Cons.prems(2) shifted_shape[OF 1(2)] by auto
  have "\<exists>h'. adjustChildren d (map rootOf ts) off h1 = Some h' \<and>
           shifted off (set (concat (map addrs ts))) h1 h'"
    using Cons.prems(1,3,4) s1 by (intro Cons.IH) auto
  then obtain h2 where 2: "adjustChildren d (map rootOf ts) off h1 = Some h2"
    "shifted off (set (concat (map addrs ts))) h1 h2" by blast
  have "set (addrs t) \<inter> set (concat (map addrs ts)) = {}" using Cons.prems(3) by auto
  then have "shifted off (set (addrs t) \<union> set (concat (map addrs ts))) h h2"
    using shifted_trans[OF 1(2) 2(2)] by simp
  then show ?case using 1(1) 2(1) by simp
qed

lemma adjust_tree:
  "shape h t \<Longrightarrow> distinct (addrs t) \<Longrightarrow> height t \<le> d \<Longrightarrow>
   \<exists>h'. adjustNodeColumns d (rootOf t) off h = Some h' \<and> shifted off (set (addrs t)) h h'"
proof (induction t arbitrary: d h)
  case (T a ts)
  obtain d' where d: "d = Suc d'" using T.prems(3) by (cases d) auto
  let ?h1 = "if sint (Column (h ! a)) > sint off then h[a := (h ! a)\<lparr>Column := Column (h ! a) - off\<rparr>] else h"
  have al: "a < length h" using T.prems(1) by simp
  have s1: "shifted off {a} h ?h1" using shifted_one[OF al] .
  have c1: "Content (?h1 ! a) = map rootOf ts" using T.prems(1) al by (simp add: nth_upd)
  have sh: "\<forall>t\<in>set ts. shape ?h1 t" using T.prems(1) shifted_shape[OF s1] by auto
  have hs: "\<forall>t\<in>set ts. height t \<le> d'"
  proof
    fix t assume "t \<in> set ts"
    then have "height t \<le> foldr max (map height ts) 0" by (induction ts) (auto simp: max_def)
    then show "height t \<le> d'" using T.prems(3) d by simp
  qed
  have "\<exists>h'. adjustChildren d' (map rootOf ts) off ?h1 = Some h' \<and>
           shifted off (set (concat (map addrs ts))) ?h1 h'"
    using T.IH T.prems(2) sh hs by (intro adjustChildren_tree) auto
  then obtain h2 where 2: "adjustChildren d' (map rootOf ts) off ?h1 = Some h2"
    "shifted off (set (concat (map addrs ts))) ?h1 h2" by blast
  have "{a} \<inter> set (concat (map addrs ts)) = {}" using T.prems(2) by auto
  then have "shifted off ({a} \<union> set (concat (map addrs ts))) h h2"
    using shifted_trans[OF s1 2(2)] by simp
  moreover have "adjustNodeColumns d a off h = Some h2" using 2(1) c1 d by (simp add: Let_def)
  ultimately show ?case by auto
qed

lemma shape_root: "shape h t \<Longrightarrow> rootOf t < length h"
  by (cases t) simp

lemma sint_shiftCol:
  assumes "0 \<le> sint offset"
  shows "sint (shiftCol offset c) = (if sint c > sint offset then sint c - sint offset else sint c)"
proof (cases "sint c > sint offset")
  case True
  have "sint c < 2 ^ 63" using sint_lt[of c] by simp
  then have b: "- (2 ^ 63) \<le> sint c - sint offset" "sint c - sint offset < 2 ^ 63"
    using True assms by simp_all
  have "sint (c - offset) = signed_take_bit 63 (sint c - sint offset)"
    by (simp add: sint_word_ariths)
  also have "\<dots> = sint c - sint offset"
    using b by (simp add: signed_take_bit_int_eq_self)
  finally show ?thesis using True by (simp add: shiftCol_def)
next
  case False
  then show ?thesis by (simp add: shiftCol_def)
qed

lemma shiftCol_nonneg:
  assumes "0 \<le> sint offset" "0 \<le> sint c"
  shows "0 \<le> sint (shiftCol offset c)"
  using assms by (simp add: sint_shiftCol)

subsection \<open>Decimal texts\<close>







section \<open>Lemmas: merges that return\<close>

subsection \<open>Looking up pairs\<close>

lemma scanPairs_cong:
  "\<forall>k\<in>set (evens cs). Value (h' ! k) = Value (h ! k) \<Longrightarrow> scanPairs h' cs key = scanPairs h cs key"
  by (induction h cs key rule: scanPairs.induct) auto

lemma scanPairs_pair:
  "scanPairs h cs key = Found k v \<Longrightarrow> (k, v) \<in> set (pairsOf cs) \<and> Value (h ! k) = key"
  by (induction h cs key rule: scanPairs.induct) (auto split: if_splits)

lemma pairsOf_distinct:
  "distinct cs \<Longrightarrow> (k, v) \<in> set (pairsOf cs) \<Longrightarrow> (k', v) \<in> set (pairsOf cs) \<Longrightarrow> k = k'"
  by (induction cs rule: pairsOf.induct) (auto dest: pairsOf_set)

lemma scanPairs_even: "even (length cs) \<Longrightarrow> scanPairs h cs key \<noteq> FindPanic"
  by (induction h cs key rule: scanPairs.induct) auto

lemma scanPairs_append2:
  "even (length cs) \<Longrightarrow>
   scanPairs h (cs @ [k, v]) key =
     (case scanPairs h cs key of
        NotFound \<Rightarrow> (if Value (h ! k) = key then Found k v else NotFound)
      | r \<Rightarrow> r)"
  by (induction h cs key rule: scanPairs.induct) auto

lemma scanPairs_other:
  assumes "distinct cs" and "scanPairs h cs a = Found k v" and "scanPairs h cs b = Found k' v'"
    and "a \<noteq> b"
  shows "v \<noteq> v'"
proof
  assume "v = v'"
  then have "k = k'" using pairsOf_distinct[OF assms(1)] scanPairs_pair[OF assms(2)]
      scanPairs_pair[OF assms(3)] by blast
  then show False using scanPairs_pair[OF assms(2)] scanPairs_pair[OF assms(3)] assms(4) by simp
qed

subsection \<open>Nodes that fit a value\<close>

lemma fits_fresh:
  "Content (h ! n) = [] \<longrightarrow> fits h n v"
  "cs = [] \<longrightarrow> fitsFields h cs fs"
  "cs = [] \<longrightarrow> fitsEntries h cs es"
  "cs = [] \<longrightarrow> fitsElems h cs vs"
  by (induction h n v and h cs fs and h cs es and h cs vs
      rule: fits_fitsFields_fitsEntries_fitsElems.induct) auto

lemma fits_cong:
  assumes "closed h C"
    and "\<forall>b\<in>C. Content (h' ! b) = Content (h ! b) \<and> Value (h' ! b) = Value (h ! b)"
  shows "n \<in> C \<longrightarrow> fits h' n v = fits h n v"
    and "set cs \<subseteq> C \<longrightarrow> fitsFields h' cs fs = fitsFields h cs fs"
    and "set cs \<subseteq> C \<longrightarrow> fitsEntries h' cs es = fitsEntries h cs es"
    and "set cs \<subseteq> C \<longrightarrow> fitsElems h' cs vs = fitsElems h cs vs"
  using assms
proof (induction h n v and h cs fs and h cs es and h cs vs
      rule: fits_fitsFields_fitsEntries_fitsElems.induct)
  case (1 h n fs)
  then show ?case by (auto dest: closedD)
next
  case (2 h n ks es)
  then show ?case by (auto dest: closedD)
next
  case (3 h n vs)
  then show ?case by (auto dest: closedD)
next
  case (4 h n v)
  then show ?case by simp
next
  case (7 h cs name tag exported v fs)
  show ?case
  proof
    assume sub: "set cs \<subseteq> C"
    have ev: "\<forall>k\<in>set (evens cs). Value (h' ! k) = Value (h ! k)"
    proof
      fix k assume "k \<in> set (evens cs)"
      then have "k \<in> set cs" by (induction cs rule: evens.induct) auto
      then show "Value (h' ! k) = Value (h ! k)" using sub 7(4) by auto
    qed
    have sc: "scanPairs h' cs (yamlKey name tag) = scanPairs h cs (yamlKey name tag)"
      using ev by (rule scanPairs_cong)
    have rest: "fitsFields h' cs fs = fitsFields h cs fs" using 7(2)[OF 7(3,4)] sub by simp
    show "fitsFields h' cs (Field name tag exported v # fs) = fitsFields h cs (Field name tag exported v # fs)"
    proof (cases "scanPairs h cs (yamlKey name tag)")
      case (Found k vn)
      then have "vn \<in> C" using scanPairs_Found[OF Found] sub by auto
      then show ?thesis using 7(1)[OF Found 7(3,4)] Found sc rest by simp
    qed (use sc rest in simp_all)
  qed
next
  case (9 h cs key v es)
  show ?case
  proof
    assume sub: "set cs \<subseteq> C"
    have ev: "\<forall>k\<in>set (evens cs). Value (h' ! k) = Value (h ! k)"
    proof
      fix k assume "k \<in> set (evens cs)"
      then have "k \<in> set cs" by (induction cs rule: evens.induct) auto
      then show "Value (h' ! k) = Value (h ! k)" using sub 9(4) by auto
    qed
    have sc: "scanPairs h' cs key = scanPairs h cs key" using ev by (rule scanPairs_cong)
    have rest: "fitsEntries h' cs es = fitsEntries h cs es" using 9(2)[OF 9(3,4)] sub by simp
    show "fitsEntries h' cs ((key, v) # es) = fitsEntries h cs ((key, v) # es)"
    proof (cases "scanPairs h cs key")
      case (Found k vn)
      then have "vn \<in> C" using scanPairs_Found[OF Found] sub by auto
      then show ?thesis using 9(1)[OF Found 9(3,4)] Found sc rest by simp
    qed (use sc rest in simp_all)
  qed
qed auto

subsection \<open>Trees that wait for their value\<close>

lemma shape_keep:
  "shape h t \<Longrightarrow> length h \<le> length h' \<Longrightarrow> \<forall>b\<in>set (addrs t). Content (h' ! b) = Content (h ! b) \<Longrightarrow>
   shape h' t"
  by (induction t) auto

lemma isTree_keep:
  "isTree h t \<Longrightarrow> length h \<le> length h' \<Longrightarrow> \<forall>b\<in>set (addrs t). h' ! b = h ! b \<Longrightarrow> isTree h' t"
  unfolding isTree_def using shape_keep[of h t h'] by simp

lemma cover_mono: "F' \<subseteq> F \<Longrightarrow> cover F' \<subseteq> cover F"
  by (auto simp: cover_def)

lemma pending_sub: "pending h F \<Longrightarrow> F' \<subseteq> F \<Longrightarrow> pending h F'"
  unfolding pending_def by blast

lemma pending_keep:
  assumes "pending h F" and "length h \<le> length h'" and "\<forall>b\<in>cover F. h' ! b = h ! b"
  shows "pending h' F"
  unfolding pending_def
proof (intro conjI ballI impI)
  fix t assume t: "t \<in> F"
  then have same: "\<forall>b\<in>set (addrs t). h' ! b = h ! b" using assms(3) by (auto simp: cover_def)
  show "isTree h' t" using assms(1) t isTree_keep[OF _ assms(2) same] by (simp add: pending_def)
  show "docfree h' (set (addrs t))" using assms(1) t same by (simp add: pending_def docfree_def)
next
  fix t t' assume "t \<in> F" "t' \<in> F" "t \<noteq> t'"
  then show "set (addrs t) \<inter> set (addrs t') = {}" using assms(1) by (simp add: pending_def)
qed

lemma pending_bound: "pending h F \<Longrightarrow> b \<in> cover F \<Longrightarrow> b < length h"
  unfolding pending_def cover_def isTree_def using shape_addrs by fastforce

lemma fits_keep:
  assumes "isTree h t" and "\<forall>b\<in>set (addrs t). h' ! b = h ! b"
  shows "fits h' (rootOf t) v = fits h (rootOf t) v"
proof -
  have "closed h (set (addrs t))" using assms(1) shape_closed by (simp add: isTree_def)
  then show ?thesis using fits_cong(1)[of h "set (addrs t)" h' "rootOf t" v] assms(2) rootOf_in_addrs
    by simp
qed

lemma evens_subset: "set (evens cs) \<subseteq> set cs"
  by (induction cs rule: evens.induct) auto

lemma pairsInv_tail: "pairsInv h cs F (kv # kvs) \<Longrightarrow> pairsInv h cs F kvs"
  by (cases kv) (auto simp: pairsInv_def)

lemma pairsInv_keep:
  assumes inv: "pairsInv h cs F kvs" and l: "length h \<le> length h'"
    and same: "\<forall>b\<in>set cs \<union> cover F. h' ! b = h ! b"
  shows "pairsInv h' cs F kvs"
proof -
  have p: "pending h F" using inv by (simp add: pairsInv_def)
  have sc: "scanPairs h' cs key = scanPairs h cs key" for key
    using same evens_subset[of cs] by (intro scanPairs_cong) auto
  have d: "(\<exists>t\<in>F. rootOf t = vn) \<and> fits h' vn v"
    if kv: "(key, v) \<in> set kvs" and f: "scanPairs h' cs key = Found k vn" for key v k vn
  proof -
    from inv kv f[unfolded sc] obtain t where t: "t \<in> F" "rootOf t = vn" and ft: "fits h vn v"
      unfolding pairsInv_def by blast
    have "isTree h t" using p t(1) by (simp add: pending_def)
    moreover have "\<forall>b\<in>set (addrs t). h' ! b = h ! b" using same t(1) by (auto simp: cover_def)
    ultimately have "fits h' vn v" using fits_keep[of h t h' v] t(2) ft by simp
    then show ?thesis using t by blast
  qed
  have "pending h' F" using pending_keep[OF p l] same by simp
  moreover have "set cs \<subseteq> {..<length h'}" using inv l by (auto simp: pairsInv_def)
  ultimately show ?thesis using inv d unfolding pairsInv_def by auto
qed

lemma pairsInv_found:
  assumes inv: "pairsInv h cs F ((key, v) # kvs)" and f: "scanPairs h cs key = Found k vn"
    and t: "t \<in> F" "rootOf t = vn" and l: "length h \<le> length h1"
    and same: "\<forall>b<length h. b \<notin> set (addrs t) \<longrightarrow> h1 ! b = h ! b"
  shows "pairsInv h1 cs {t' \<in> F. rootOf t' \<noteq> vn} kvs"
proof -
  let ?F = "{t' \<in> F. rootOf t' \<noteq> vn}"
  have p: "pending h F" and keys: "\<forall>k\<in>set (evens cs). k \<notin> cover F"
    and cs: "set cs \<subseteq> {..<length h}" "distinct cs" "even (length cs)"
    and dk: "key \<notin> fst ` set kvs" "distinct (map fst kvs)" and g: "goodEntries kvs"
    using inv by (auto simp: pairsInv_def)
  have disj: "b \<notin> set (addrs t)" if "b \<in> cover ?F" for b
  proof -
    from that obtain t' where t': "t' \<in> F" "rootOf t' \<noteq> vn" "b \<in> set (addrs t')"
      by (auto simp: cover_def)
    then have "t \<noteq> t'" using t(2) by auto
    then show ?thesis using p t(1) t'(1,3) unfolding pending_def by blast
  qed
  have sF: "\<forall>b\<in>cover ?F. h1 ! b = h ! b"
  proof
    fix b assume b: "b \<in> cover ?F"
    then have "b \<in> cover F" using cover_mono[of ?F F] by auto
    then have "b < length h" using pending_bound[OF p] by simp
    then show "h1 ! b = h ! b" using same disj[OF b] by simp
  qed
  have p1: "pending h1 ?F" using pending_keep[OF pending_sub[OF p] l sF] by simp
  have k1: "\<forall>k\<in>set (evens cs). k \<notin> cover ?F" using keys cover_mono[of ?F F] by auto
  have tc: "set (addrs t) \<subseteq> cover F" using t(1) by (auto simp: cover_def)
  have kv: "\<forall>k\<in>set (evens cs). Value (h1 ! k) = Value (h ! k)"
  proof
    fix k assume k: "k \<in> set (evens cs)"
    then have "k < length h" using evens_subset[of cs] cs(1) by auto
    moreover have "k \<notin> set (addrs t)" using keys k tc by auto
    ultimately show "Value (h1 ! k) = Value (h ! k)" using same by simp
  qed
  have sc: "scanPairs h1 cs key' = scanPairs h cs key'" for key' using kv by (rule scanPairs_cong)
  have d: "(\<exists>t'\<in>?F. rootOf t' = vn') \<and> fits h1 vn' v'"
    if e: "(key', v') \<in> set kvs" and f': "scanPairs h1 cs key' = Found k' vn'" for key' v' k' vn'
  proof -
    have ne: "key \<noteq> key'" using dk(1) e by force
    from pairsInv_tail[OF inv] e f'[unfolded sc]
    obtain t' where t': "t' \<in> F" "rootOf t' = vn'" and ft: "fits h vn' v'"
      unfolding pairsInv_def by blast
    have "vn \<noteq> vn'" using scanPairs_other[OF cs(2) f f'[unfolded sc] ne] .
    then have tF: "t' \<in> ?F" using t' by simp
    have "isTree h t'" using p t'(1) by (simp add: pending_def)
    moreover have "\<forall>b\<in>set (addrs t'). h1 ! b = h ! b" using sF tF by (auto simp: cover_def)
    ultimately have "fits h1 vn' v'" using fits_keep[of h t' h1 v'] t'(2) ft by simp
    then show ?thesis using tF t'(2) by blast
  qed
  have "set cs \<subseteq> {..<length h1}" using cs(1) l by auto
  then show ?thesis unfolding pairsInv_def using cs(2,3) p1 k1 d dk(2) g by auto
qed

lemma pairsInv_append:
  assumes inv: "pairsInv h cs F kvs" and n: "ka \<notin> set cs" "va \<notin> set cs" "ka \<noteq> va"
    "ka < length h" "va < length h" "ka \<notin> cover F" and k: "Value (h ! ka) \<notin> fst ` set kvs"
  shows "pairsInv h (cs @ [ka, va]) F kvs"
proof -
  have ev: "even (length cs)" using inv by (simp add: pairsInv_def)
  have e2: "evens (cs @ [ka, va]) = evens cs @ [ka]" using ev by (rule evens_append2)
  have d: "scanPairs h cs key = Found k' vn"
    if e: "(key, v) \<in> set kvs" and f: "scanPairs h (cs @ [ka, va]) key = Found k' vn" for key v k' vn
  proof -
    have "Value (h ! ka) \<noteq> key" using k e by force
    then show ?thesis using f scanPairs_append2[OF ev, of h ka va key]
      by (cases "scanPairs h cs key") simp_all
  qed
  show ?thesis unfolding pairsInv_def
  proof (intro conjI)
    show "\<forall>(key, v)\<in>set kvs. \<forall>k vn. scanPairs h (cs @ [ka, va]) key = Found k vn \<longrightarrow>
            (\<exists>t\<in>F. rootOf t = vn) \<and> fits h vn v"
      using inv d unfolding pairsInv_def by blast
  qed (use inv n e2 in \<open>auto simp: pairsInv_def\<close>)
qed

lemma elemsInv_reuse:
  assumes inv: "elemsInv h (c # cs) F (v # vs)" and t: "t \<in> F" "rootOf t = c"
    and l: "length h \<le> length h1"
    and same: "\<forall>b<length h. b \<notin> set (addrs t) \<longrightarrow> h1 ! b = h ! b"
  shows "elemsInv h1 cs {t' \<in> F. rootOf t' \<noteq> c} vs"
proof -
  let ?F = "{t' \<in> F. rootOf t' \<noteq> c}"
  have p: "pending h F" and dc: "c \<notin> set cs" "distinct cs"
    and ex: "\<forall>c'\<in>set cs. \<exists>t\<in>F. rootOf t = c'"
    and fe: "fitsElems h cs vs" and g: "goodElems vs"
    using inv by (auto simp: elemsInv_def)
  have sF: "\<forall>b\<in>cover ?F. h1 ! b = h ! b"
  proof
    fix b assume b: "b \<in> cover ?F"
    then obtain t' where t': "t' \<in> F" "rootOf t' \<noteq> c" "b \<in> set (addrs t')"
      by (auto simp: cover_def)
    then have "t \<noteq> t'" using t(2) by auto
    then have "b \<notin> set (addrs t)" using p t(1) t'(1,3) unfolding pending_def by blast
    moreover have "b < length h" using pending_bound[OF p, of b] t'(1,3) by (auto simp: cover_def)
    ultimately show "h1 ! b = h ! b" using same by simp
  qed
  have p1: "pending h1 ?F" using pending_keep[OF pending_sub[OF p] l sF] by simp
  have ex1: "\<forall>c'\<in>set cs. \<exists>t\<in>?F. rootOf t = c'" using ex dc(1) by auto
  have "fitsElems h1 cs' vs' = fitsElems h cs' vs'" if "set cs' \<subseteq> set cs" for cs' vs'
    using that
  proof (induction cs' arbitrary: vs')
    case Nil
    then show ?case by simp
  next
    case (Cons c' cs')
    note IH = Cons.IH and pr = Cons.prems
    show ?case
    proof (cases vs')
      case Nil
      then show ?thesis by simp
    next
      case (Cons v' ws)
      obtain t' where t': "t' \<in> ?F" "rootOf t' = c'" using ex1 pr by auto
      have "isTree h t'" using p t'(1) by (simp add: pending_def)
      moreover have "\<forall>b\<in>set (addrs t'). h1 ! b = h ! b" using sF t'(1) by (auto simp: cover_def)
      ultimately have "fits h1 c' v' = fits h c' v'" using fits_keep[of h t' h1 v'] t'(2) by simp
      then show ?thesis using Cons IH[of ws] pr by simp
    qed
  qed
  then have "fitsElems h1 cs vs" using fe by simp
  then show ?thesis unfolding elemsInv_def using dc(2) p1 ex1 g by simp
qed

subsection \<open>The children of a tree\<close>

lemma forest_disjoint:
  "distinct (concat (map addrs ts)) \<Longrightarrow> t \<in> set ts \<Longrightarrow> t' \<in> set ts \<Longrightarrow> t \<noteq> t' \<Longrightarrow>
   set (addrs t) \<inter> set (addrs t') = {}"
  by (induction ts) auto

lemma forest_roots: "distinct (concat (map addrs ts)) \<Longrightarrow> distinct (map rootOf ts)"
proof (induction ts)
  case Nil
  then show ?case by simp
next
  case (Cons t ts)
  have "rootOf t \<noteq> rootOf t'" if "t' \<in> set ts" for t'
  proof -
    have "rootOf t' \<in> set (concat (map addrs ts))" using that rootOf_in_addrs[of t'] by auto
    moreover have "rootOf t \<in> set (addrs t)" by (rule rootOf_in_addrs)
    ultimately show ?thesis using Cons.prems by auto
  qed
  then show ?case using Cons by auto
qed

lemma odds_subset: "set (odds xs) \<subseteq> set xs"
  by (induction xs rule: odds.induct) auto

lemma evens_map: "evens (map f xs) = map f (evens xs)"
  by (induction xs rule: evens.induct) auto

lemma evens_odds: "distinct xs \<Longrightarrow> x \<in> set (evens xs) \<Longrightarrow> x \<notin> set (odds xs)"
proof (induction xs rule: evens.induct)
  case (3 k v rest)
  then show ?case using odds_subset[of rest] evens_subset[of rest] by auto
qed auto

lemma scanPairs_odds:
  "scanPairs h (map rootOf ts) key = Found k vn \<Longrightarrow> \<exists>t\<in>set (odds ts). rootOf t = vn"
  by (induction ts rule: odds.induct) (auto split: if_splits)

lemma tree_children:
  assumes "isTree h (T n ts)" and "docfree h (set (addrs (T n ts)))"
  shows "pending h (set ts)" and "n \<notin> cover (set ts)" and "distinct (map rootOf ts)"
    and "set (map rootOf ts) \<subseteq> {..<length h}" and "Content (h ! n) = map rootOf ts"
    and "n < length h" and "n \<notin> set (map rootOf ts)"
proof -
  have sh: "\<forall>t\<in>set ts. shape h t" and d: "distinct (concat (map addrs ts))"
    and n: "n \<notin> set (concat (map addrs ts))"
    using assms(1) by (auto simp: isTree_def)
  have "distinct (addrs t)" if "t \<in> set ts" for t using d that by (induction ts) auto
  then show "pending h (set ts)"
    unfolding pending_def isTree_def using sh assms(2) forest_disjoint[OF d]
    by (auto simp: docfree_def)
  show "n \<notin> cover (set ts)" using n by (auto simp: cover_def)
  show "distinct (map rootOf ts)" using d by (rule forest_roots)
  show "set (map rootOf ts) \<subseteq> {..<length h}"
    using sh shape_addrs rootOf_in_addrs by fastforce
  show "Content (h ! n) = map rootOf ts" "n < length h" using assms(1) by (simp_all add: isTree_def)
  show "n \<notin> set (map rootOf ts)" using n rootOf_in_addrs by fastforce
qed

lemma fitsEntries_mem:
  "fitsEntries h cs kvs \<Longrightarrow> (key, v) \<in> set kvs \<Longrightarrow> scanPairs h cs key = Found k vn \<Longrightarrow> fits h vn v"
  by (induction kvs) auto

lemma fitsFields_entries: "fitsFields h cs fs = fitsEntries h cs (map fieldEntry fs)"
proof (induction fs)
  case Nil
  then show ?case by simp
next
  case (Cons f fs)
  then show ?case by (cases f) (simp add: fieldEntry_def)
qed

lemma goodFields_entries:
  "goodFields fs \<Longrightarrow> goodEntries (map fieldEntry fs) \<and> (\<forall>f\<in>set fs. fieldExported f)"
proof (induction fs)
  case Nil
  then show ?case by simp
next
  case (Cons f fs)
  then show ?case by (cases f) (simp add: fieldEntry_def)
qed

lemma tree_pairsInv:
  assumes t: "isTree h (T n ts)" and df: "docfree h (set (addrs (T n ts)))"
    and ev: "even (length ts)" and fe: "fitsEntries h (map rootOf ts) kvs"
    and dk: "distinct (map fst kvs)" and g: "goodEntries kvs"
  shows "pairsInv h (map rootOf ts) (set (odds ts)) kvs" and "n \<notin> cover (set (odds ts))"
proof -
  note c = tree_children[OF t df]
  have d: "distinct (concat (map addrs ts))" using t by (simp add: isTree_def)
  have dt: "distinct ts" using c(3) by (rule distinct_map[THEN iffD1, THEN conjunct1])
  have p: "pending h (set (odds ts))" using pending_sub[OF c(1) odds_subset] .
  have keys: "k \<notin> cover (set (odds ts))" if "k \<in> set (evens (map rootOf ts))" for k
  proof
    assume "k \<in> cover (set (odds ts))"
    then obtain t' where t': "t' \<in> set (odds ts)" "k \<in> set (addrs t')" by (auto simp: cover_def)
    from that obtain te where te: "te \<in> set (evens ts)" "k = rootOf te" by (auto simp: evens_map)
    have "te \<noteq> t'" using evens_odds[OF dt te(1)] t'(1) by auto
    moreover have "te \<in> set ts" "t' \<in> set ts" using te(1) t'(1) evens_subset[of ts] odds_subset[of ts] by auto
    ultimately have "set (addrs te) \<inter> set (addrs t') = {}" using forest_disjoint[OF d] by simp
    then show False using t'(2) te(2) rootOf_in_addrs[of te] by auto
  qed
  show "n \<notin> cover (set (odds ts))" using c(2) cover_mono[OF odds_subset, of ts] by auto
  show "pairsInv h (map rootOf ts) (set (odds ts)) kvs"
    unfolding pairsInv_def
    using ev c(3,4) p keys fitsEntries_mem[OF fe] scanPairs_odds dk g by auto
qed

subsection \<open>One step of a loop\<close>

lemma pairsInv_head:
  assumes "pairsInv h cs F ((key, v) # kvs)"
  shows "good v" and "even (length cs)" and "set cs \<subseteq> {..<length h}"
    and "scanPairs h cs key = Found k vn \<Longrightarrow>
           \<exists>t\<in>F. rootOf t = vn \<and> isTree h t \<and> docfree h (set (addrs t)) \<and> fits h vn v"
  using assms unfolding pairsInv_def pending_def by auto

lemma tree_frame:
  assumes "updateNode ro vn v h = Ok u h1" and "isTree h t" and "rootOf t = vn"
  shows "length h \<le> length h1 \<and> (\<forall>b<length h. b \<notin> set (addrs t) \<longrightarrow> h1 ! b = h ! b)"
proof -
  have "closed h (set (addrs t))" using assms(2) shape_closed by (simp add: isTree_def)
  then have "frame (set (addrs t)) h h1"
    using updateNode_frame[OF assms(1)] assms(3) rootOf_in_addrs[of t] by auto
  then show ?thesis using frame_length frame_same by blast
qed

lemma fresh_frame:
  assumes "updateNode ro va v h0 = Ok u h1" and "va < length h0" and "Content (h0 ! va) = []"
  shows "length h0 \<le> length h1 \<and> (\<forall>b<length h0. b \<noteq> va \<longrightarrow> h1 ! b = h0 ! b)"
proof -
  have "closed h0 {va}" using assms(2,3) by (simp add: closed_def)
  then have "frame {va} h0 h1" using updateNode_frame[OF assms(1)] by simp
  then show ?thesis using frame_length frame_same by blast
qed

lemma updateField_inv:
  assumes inv: "loopInv h m F ((key, v) # kvs)"
    and u: "updateField m (Field name tag ex v) h = Ok u h1" and key: "yamlKey name tag = key"
  shows "\<exists>F'. loopInv h1 m F' kvs"
proof -
  let ?cs = "Content (h ! m)"
  have ml: "m < length h" and mc: "m \<notin> set ?cs" and mF: "m \<notin> cover F"
    and pi: "pairsInv h ?cs F ((key, v) # kvs)"
    using inv by (simp_all add: loopInv_def)
  note hd = pairsInv_head[OF pi]
  show ?thesis
  proof (cases "findNodes h m key")
    case (Found k vn)
    have f: "scanPairs h ?cs key = Found k vn" using Found by (simp add: findNodes_def)
    obtain t where t: "t \<in> F" "rootOf t = vn" "isTree h t" using hd(4)[OF f] by blast
    have up: "updateNode (\<not> ex) vn v h = Ok u h1"
      using u Found key by (simp add: Let_def yamlKey_def)
    note fr = tree_frame[OF up t(3,2)]
    let ?F = "{t' \<in> F. rootOf t' \<noteq> vn}"
    have p1: "pairsInv h1 ?cs ?F kvs" using pairsInv_found[OF pi f t(1,2)] fr by simp
    have "m \<notin> set (addrs t)" using mF t(1) by (auto simp: cover_def)
    then have m1: "h1 ! m = h ! m" using fr ml by simp
    have "m \<notin> cover ?F" using mF cover_mono[of ?F F] by auto
    then show ?thesis unfolding loopInv_def using m1 p1 mc ml fr by (intro exI[of _ ?F]) auto
  next
    case NotFound
    let ?ka = "length h" and ?va = "Suc (length h)"
    obtain h0 where a: "appendPair m key h = Some ((?ka, ?va), h0)"
      and up: "updateNode (\<not> ex) ?va v h0 = Ok u h1"
      using updateField_NotFound[OF NotFound[folded key] u] key by auto
    note n = appendPair_nodes[OF a ml]
    obtain n1 n2 where sh: "h0 = (h @ [n1, n2])[m := ((h @ [n1, n2]) ! m)\<lparr>Content := ?cs @ [?ka, ?va]\<rparr>]"
      using appendPair_shape[OF a] by blast
    have l0: "length h0 = length h + 2" using n by simp
    have h0b: "h0 ! b = h ! b" if "b < length h" "b \<noteq> m" for b
      using sh that by (simp add: nth_append)
    have fr: "length h0 \<le> length h1" "\<forall>b<length h0. b \<noteq> ?va \<longrightarrow> h1 ! b = h0 ! b"
      using fresh_frame[OF up] n l0 by simp_all
    have l1: "length h \<le> length h1" using l0 fr(1) by simp
    have old: "h1 ! b = h ! b" if "b < length h" "b \<noteq> m" for b
      using fr(2) h0b[OF that] that l0 by simp
    have m1: "Content (h1 ! m) = ?cs @ [?ka, ?va]" using fr(2) n ml l0 by simp
    have k1: "Value (h1 ! ?ka) = key" using fr(2) n l0 by simp
    have pt: "pairsInv h ?cs F kvs" using pi by (rule pairsInv_tail)
    have pF: "pending h F" using pi by (simp add: pairsInv_def)
    have cb: "b < length h" if "b \<in> cover F" for b using pending_bound[OF pF that] .
    have "\<forall>b\<in>set ?cs \<union> cover F. h1 ! b = h ! b"
    proof
      fix b assume b: "b \<in> set ?cs \<union> cover F"
      then have "b < length h" using hd(3) cb by auto
      moreover have "b \<noteq> m" using b mc mF by auto
      ultimately show "h1 ! b = h ! b" by (rule old)
    qed
    then have p1: "pairsInv h1 ?cs F kvs" using pairsInv_keep[OF pt l1] by simp
    have dk: "key \<notin> fst ` set kvs" using pi by (auto simp: pairsInv_def)
    have "pairsInv h1 (?cs @ [?ka, ?va]) F kvs"
    proof (rule pairsInv_append[OF p1])
      show "?ka \<notin> set ?cs" "?va \<notin> set ?cs" using hd(3) by auto
      show "?ka < length h1" "?va < length h1" using l0 fr(1) by simp_all
      show "?ka \<notin> cover F" using cb by auto
      show "Value (h1 ! ?ka) \<notin> fst ` set kvs" using k1 dk by simp
    qed simp
    then show ?thesis unfolding loopInv_def using m1 mc ml l1 mF by (intro exI[of _ F]) auto
  next
    case FindPanic
    then show ?thesis using u key by (simp add: Let_def yamlKey_def)
  qed
qed

lemma createOrReusePair_inv:
  assumes pi: "pairsInv h oc F ((key, v) # kvs)"
    and c: "createOrReusePair node key oc bi h = Some ((kn, vn), h0)"
    and up: "updateNode ro vn v h0 = Ok u h1"
  shows "\<exists>F'. pairsInv h1 oc F' kvs"
proof -
  note hd = pairsInv_head[OF pi]
  show ?thesis
  proof (cases "scanPairs h oc key")
    case (Found k vn')
    then have e: "vn' = vn" "h0 = h" using c by (simp_all add: createOrReusePair_def)
    obtain t where t: "t \<in> F" "rootOf t = vn" "isTree h t" using hd(4)[OF Found] e by blast
    note fr = tree_frame[OF up[unfolded e] t(3,2)]
    show ?thesis using pairsInv_found[OF pi Found[unfolded e] t(1,2)] fr by blast
  next
    case NotFound
    then obtain n1 n2 where s: "h0 = h @ [n1, n2]" "vn = Suc (length h)" "Content n2 = []"
      using c by (auto simp: createOrReusePair_def Let_def zeroNode_def split: if_splits)
    have fr: "length h0 \<le> length h1" "\<forall>b<length h0. b \<noteq> vn \<longrightarrow> h1 ! b = h0 ! b"
      using fresh_frame[OF up] s by (simp_all add: nth_append)
    have old: "h1 ! b = h ! b" if "b < length h" for b
      using fr(2) that s by (simp add: nth_append)
    have pF: "pending h F" using pi by (simp add: pairsInv_def)
    have "\<forall>b\<in>set oc \<union> cover F. h1 ! b = h ! b"
      using old hd(3) pending_bound[OF pF] by auto
    moreover have "length h \<le> length h1" using fr(1) s by simp
    ultimately show ?thesis using pairsInv_keep[OF pairsInv_tail[OF pi]] by blast
  next
    case FindPanic
    then show ?thesis using c by (simp add: createOrReusePair_def)
  qed
qed

lemma createOrReuseNode_inv:
  assumes ei: "elemsInv h (drop i oc) F (v # vs)"
    and c: "createOrReuseNode node i oc bi h = (e, h0)"
    and up: "updateNode ro e v h0 = Ok u h1"
  shows "\<exists>F'. elemsInv h1 (drop (Suc i) oc) F' vs"
proof (cases "i < length oc")
  case True
  then have e: "e = oc ! i" "h0 = h" using c by (simp_all add: createOrReuseNode_def)
  have d: "drop i oc = oc ! i # drop (Suc i) oc" using True by (simp add: Cons_nth_drop_Suc)
  have p: "pending h F" using ei by (simp add: elemsInv_def)
  obtain t where t: "t \<in> F" "rootOf t = oc ! i" using ei d by (auto simp: elemsInv_def)
  have "isTree h t" using p t(1) by (simp add: pending_def)
  note fr = tree_frame[OF up[unfolded e] this t(2)]
  show ?thesis using elemsInv_reuse[OF ei[unfolded d] t] fr by blast
next
  case False
  then have "drop (Suc i) oc = []" by simp
  moreover have "goodElems vs" using ei by (simp add: elemsInv_def)
  ultimately show ?thesis by (intro exI[of _ "{}"]) (simp add: elemsInv_def pending_def)
qed

subsection \<open>No panic on a tree that fits\<close>

lemma fresh_tree:
  assumes "va < length h" and "Content (h ! va) = []" and "Kind (h ! va) \<noteq> DocumentNode"
  shows "isTree h (T va []) \<and> rootOf (T va []) = va \<and> docfree h (set (addrs (T va []))) \<and>
         fits h va v"
  using assms fits_fresh(1)[of h va v] by (simp add: isTree_def docfree_def)

lemma appendPair_ready:
  assumes "even (length (Content (h ! m)))" and "m < length h"
  shows "\<exists>h0. appendPair m key h = Some ((length h, Suc (length h)), h0) \<and>
           Suc (length h) < length h0 \<and> Content (h0 ! Suc (length h)) = [] \<and>
           Kind (h0 ! Suc (length h)) \<noteq> DocumentNode"
proof -
  have "Content (h ! m) \<noteq> [] \<Longrightarrow> \<not> length (Content (h ! m)) < 2"
    using assms(1) by (cases "Content (h ! m)") (auto simp: less_Suc_eq)
  then obtain h0 where a: "appendPair m key h = Some ((length h, Suc (length h)), h0)"
    by (cases "Content (h ! m) = []") (simp_all add: appendPair_def Let_def)
  obtain n1 n2 where n: "Content n2 = []" "Kind n2 = ZeroKind"
    "h0 = (h @ [n1, n2])[m := ((h @ [n1, n2]) ! m)\<lparr>Content := Content (h ! m) @ [length h, Suc (length h)]\<rparr>]"
    using appendPair_shape[OF a] by blast
  have "h0 ! Suc (length h) = n2" using n(3) assms(2) by (simp add: nth_append)
  then show ?thesis using a n by simp
qed

lemma createOrReusePair_ready:
  assumes pi: "pairsInv h oc F ((key, v) # kvs)"
  shows "\<exists>kn vn h1 t. createOrReusePair node key oc bi h = Some ((kn, vn), h1) \<and>
           isTree h1 t \<and> rootOf t = vn \<and> docfree h1 (set (addrs t)) \<and> fits h1 vn v \<and> good v"
proof -
  note hd = pairsInv_head[OF pi]
  show ?thesis
  proof (cases "scanPairs h oc key")
    case (Found k vn)
    then have "createOrReusePair node key oc bi h = Some ((k, vn), h)"
      by (simp add: createOrReusePair_def)
    then show ?thesis using hd(1) hd(4)[OF Found] by blast
  next
    case NotFound
    have g: "oc \<noteq> [] \<Longrightarrow> \<not> length oc < 2"
      using hd(2) by (cases oc) (auto simp: less_Suc_eq)
    obtain h1 where c: "createOrReusePair node key oc bi h = Some ((length h, Suc (length h)), h1)"
      and n: "Suc (length h) < length h1" "Content (h1 ! Suc (length h)) = []"
        "Kind (h1 ! Suc (length h)) \<noteq> DocumentNode"
      using NotFound g
      by (cases "oc = []") (simp_all add: createOrReusePair_def Let_def zeroNode_def nth_append)
    have "isTree h1 (T (Suc (length h)) []) \<and> rootOf (T (Suc (length h)) []) = Suc (length h) \<and>
          docfree h1 (set (addrs (T (Suc (length h)) []))) \<and> fits h1 (Suc (length h)) v"
      using n by (intro fresh_tree)
    then show ?thesis using c hd(1) by blast
  next
    case FindPanic
    then show ?thesis using scanPairs_even[OF hd(2)] by simp
  qed
qed

lemma createOrReuseNode_ready:
  assumes ei: "elemsInv h (drop i oc) F (v # vs)"
    and c: "createOrReuseNode node i oc bi h = (e, h1)"
  shows "\<exists>t. isTree h1 t \<and> rootOf t = e \<and> docfree h1 (set (addrs t)) \<and> fits h1 e v \<and> good v"
proof (cases "i < length oc")
  case True
  then have e: "e = oc ! i" "h1 = h" using c by (simp_all add: createOrReuseNode_def)
  have d: "drop i oc = oc ! i # drop (Suc i) oc" using True by (simp add: Cons_nth_drop_Suc)
  show ?thesis using ei unfolding d e elemsInv_def pending_def by auto
next
  case False
  then obtain n where n: "e = length h" "h1 = h @ [n]" "Content n = []" "Kind n = ZeroKind"
    using c by (auto simp: createOrReuseNode_def Let_def zeroNode_def split: if_splits)
  have "isTree h1 (T e []) \<and> rootOf (T e []) = e \<and> docfree h1 (set (addrs (T e []))) \<and> fits h1 e v"
    using n by (intro fresh_tree) simp_all
  moreover have "good v" using ei by (simp add: elemsInv_def)
  ultimately show ?thesis by blast
qed

lemma loopInv_single: "loopInv h m F (kv # kvs) \<Longrightarrow> loopInv h m F [kv]"
  by (cases kv) (auto simp: loopInv_def pairsInv_def)

lemma fitsElems_keep:
  assumes p: "pending h F" and same: "\<forall>b\<in>cover F. h1 ! b = h ! b"
  shows "\<forall>c\<in>set cs. \<exists>t\<in>F. rootOf t = c \<Longrightarrow> fitsElems h1 cs vs = fitsElems h cs vs"
proof (induction cs arbitrary: vs)
  case Nil
  then show ?case by simp
next
  case (Cons c cs)
  note IH = Cons.IH and pr = Cons.prems
  show ?case
  proof (cases vs)
    case Nil
    then show ?thesis by simp
  next
    case (Cons v ws)
    obtain t where t: "t \<in> F" "rootOf t = c" using pr by auto
    have "isTree h t" using p t(1) by (simp add: pending_def)
    moreover have "\<forall>b\<in>set (addrs t). h1 ! b = h ! b" using same t(1) by (auto simp: cover_def)
    ultimately have "fits h1 c v = fits h c v" using fits_keep[of h t h1 v] t(2) by simp
    then show ?thesis using Cons IH[of ws] pr by simp
  qed
qed

lemma tree_loopInv:
  assumes t: "isTree h (T n ts)" and df: "docfree h (set (addrs (T n ts)))"
    and ev: "even (length (Content (h ! n)))" and fe: "fitsEntries h (Content (h ! n)) kvs"
    and dk: "distinct (map fst kvs)" and g: "goodEntries kvs"
    and l: "length h1 = length h" and same: "\<forall>b<length h. b \<noteq> n \<longrightarrow> h1 ! b = h ! b"
    and c1: "Content (h1 ! n) = Content (h ! n)"
  shows "loopInv h1 n (set (odds ts)) kvs"
proof -
  note c = tree_children[OF t df]
  have ev': "even (length ts)" using ev c(5) by simp
  note pi = tree_pairsInv[OF t df ev' fe[unfolded c(5)] dk g]
  have pb: "b < length h" if "b \<in> cover (set (odds ts))" for b
    using pending_bound[OF _ that] pi(1) by (simp add: pairsInv_def)
  have "\<forall>b\<in>set (map rootOf ts) \<union> cover (set (odds ts)). h1 ! b = h ! b"
  proof
    fix b assume b: "b \<in> set (map rootOf ts) \<union> cover (set (odds ts))"
    then have "b < length h" using c(4) pb by auto
    moreover have "b \<noteq> n" using b c(7) pi(2) by auto
    ultimately show "h1 ! b = h ! b" using same by simp
  qed
  then have "pairsInv h1 (map rootOf ts) (set (odds ts)) kvs"
    using pairsInv_keep[OF pi(1)] l by simp
  then show ?thesis unfolding loopInv_def using c(5,6,7) pi(2) l c1 by simp
qed

lemma tree_elemsInv:
  assumes t: "isTree h (T n ts)" and df: "docfree h (set (addrs (T n ts)))"
    and fe: "fitsElems h (Content (h ! n)) vs" and g: "goodElems vs"
    and l: "length h1 = length h" and same: "\<forall>b<length h. b \<noteq> n \<longrightarrow> h1 ! b = h ! b"
  shows "elemsInv h1 (Content (h ! n)) (set ts) vs"
proof -
  note c = tree_children[OF t df]
  have sF: "\<forall>b\<in>cover (set ts). h1 ! b = h ! b"
    using same c(2) pending_bound[OF c(1)] by auto
  have p1: "pending h1 (set ts)" using pending_keep[OF c(1) _ sF] l by simp
  have ex: "\<forall>c\<in>set (map rootOf ts). \<exists>t\<in>set ts. rootOf t = c" by auto
  have "fitsElems h1 (map rootOf ts) vs" using fitsElems_keep[OF c(1) sF ex] fe c(5) by simp
  then show ?thesis unfolding elemsInv_def using c(3,5) p1 ex g by simp
qed

lemma tree_pairsInv_keep:
  assumes t: "isTree h (T n ts)" and df: "docfree h (set (addrs (T n ts)))"
    and ev: "even (length (Content (h ! n)))" and fe: "fitsEntries h (Content (h ! n)) kvs"
    and dk: "distinct (map fst kvs)" and g: "goodEntries kvs"
    and l: "length h1 = length h" and same: "\<forall>b<length h. b \<noteq> n \<longrightarrow> h1 ! b = h ! b"
  shows "pairsInv h1 (Content (h ! n)) (set (odds ts)) kvs"
proof -
  note c = tree_children[OF t df]
  have ev': "even (length ts)" using ev c(5) by simp
  note pi = tree_pairsInv[OF t df ev' fe[unfolded c(5)] dk g]
  have pb: "b < length h" if "b \<in> cover (set (odds ts))" for b
    using pending_bound[OF _ that] pi(1) by (simp add: pairsInv_def)
  have "\<forall>b\<in>set (map rootOf ts) \<union> cover (set (odds ts)). h1 ! b = h ! b"
  proof
    fix b assume b: "b \<in> set (map rootOf ts) \<union> cover (set (odds ts))"
    then have "b < length h" using c(4) pb by auto
    moreover have "b \<noteq> n" using b c(7) pi(2) by auto
    ultimately show "h1 ! b = h ! b" using same by simp
  qed
  then show ?thesis using pairsInv_keep[OF pi(1)] l c(5) by simp
qed

lemma merge_ok:
  "\<not> ro \<Longrightarrow> isTree h t \<Longrightarrow> rootOf t = node \<Longrightarrow> docfree h (set (addrs t)) \<Longrightarrow> fits h node v \<Longrightarrow> good v
     \<Longrightarrow> \<exists>h'. updateNode ro node v h = Ok () h'"
  "isTree h t \<Longrightarrow> rootOf t = node \<Longrightarrow> docfree h (set (addrs t)) \<Longrightarrow> ptrElem (ValueOf data) = Some w \<Longrightarrow>
   recordOrMap data \<Longrightarrow> fits h node w \<Longrightarrow> good w \<Longrightarrow> \<exists>h'. updateYamlFromStruct node data h = Ok () h'"
  "loopInv h node F (map fieldEntry fs) \<Longrightarrow> \<forall>f\<in>set fs. fieldExported f
     \<Longrightarrow> \<exists>h'. structLoop node fs h = Ok () h'"
  "loopInv h node F [fieldEntry f] \<Longrightarrow> fieldExported f \<Longrightarrow> \<exists>h'. updateField node f h = Ok () h'"
  "loopInv h node F es \<Longrightarrow> \<exists>h'. mapLoop node es h = Ok () h'"
  "\<not> ro \<Longrightarrow> isTree h t \<Longrightarrow> rootOf t = node \<Longrightarrow> docfree h (set (addrs t)) \<Longrightarrow>
   fitsElems h (Content (h ! node)) vs \<Longrightarrow> goodElems vs \<Longrightarrow> \<exists>h'. updateSequence ro node vs h = Ok () h'"
  "\<not> ro \<Longrightarrow> elemsInv h (drop i oc) F vs \<Longrightarrow> \<exists>nc h'. seqLoop ro node i vs oc bi acc h = Ok nc h'"
  "\<not> ro \<Longrightarrow> isTree h t \<Longrightarrow> rootOf t = node \<Longrightarrow> docfree h (set (addrs t)) \<Longrightarrow>
   even (length (Content (h ! node))) \<Longrightarrow> fitsEntries h (Content (h ! node)) es \<Longrightarrow>
   distinct (map fst es) \<Longrightarrow> goodEntries es \<Longrightarrow> \<exists>h'. updateMapping ro node es h = Ok () h'"
  "\<not> ro \<Longrightarrow> pairsInv h oc F es \<Longrightarrow> \<exists>nc h'. mappingLoop ro node es oc bi acc h = Ok nc h'"
proof (induction ro node v h and node data h and node fs h and node f h and node es h
        and ro node vs h and ro node i vs oc bi acc h and ro node es h and ro node es oc bi acc h
        arbitrary: t and t w and F and F and F and t and F and t and F
        rule: merge_induct)
  case (1 ro node v h)
  then show ?case by simp
next
  case (2 ro node h)
  then show ?case by simp
next
  case (3 ro node fs h)
  have "\<exists>h'. updateYamlFromStruct node (VStruct fs) h = Ok () h'"
    using 3(1)[OF 3(2,3,4,5) _ _ 3(6,7)] by (simp add: recordOrMap_def)
  then show ?case using 3(2) by auto
next
  case (4 ro node vs h)
  have "\<exists>h'. updateSequence ro node vs h = Ok () h'" using 4(1)[OF 4(2,3,4,5)] 4(6,7) by simp
  then show ?case by auto
next
  case (5 ro node ks es h)
  have "\<exists>h'. updateMapping ro node es h = Ok () h'" using 5(1)[OF 5(2,3,4,5)] 5(6,7) by simp
  then show ?case by auto
next
  case (6 ro node i h)
  then show ?case by simp
next
  case (7 ro node t h)
  then show ?case by simp
next
  case (8 ro node b h)
  then show ?case by simp
next
  case (9 ro node s h)
  then show ?case by simp
next
  case (10 ro node t h)
  then show ?case by simp
next
  case (11 ro node t p h)
  then show ?case by simp
next
  case (12 ro node n h)
  then show ?case by simp
next
  case (13 node data h)
  note tr = 13(3) and rt = 13(4) and df = 13(5) and pw = 13(6) and rm = 13(7)
    and ft = 13(8) and gd = 13(9)
  obtain ts where t: "t = T node ts" using rt by (cases t) simp
  have nd: "Kind (h ! node) \<noteq> DocumentNode" using df rt rootOf_in_addrs[of t] by (auto simp: docfree_def)
  then have un: "unwrapDocument node h = Unwrapped node h" by (simp add: unwrapDocument_def)
  have nl: "node < length h" using tr t by (simp add: isTree_def)
  let ?h2 = "asMapping node h"
  have l2: "length ?h2 = length h" by (simp add: asMapping_def)
  have s2: "\<forall>b<length h. b \<noteq> node \<longrightarrow> ?h2 ! b = h ! b" by (simp add: asMapping_def)
  have c2: "Content (?h2 ! node) = Content (h ! node)" using nl by (simp add: asMapping_def)
  show ?case
  proof (cases rule: updateYamlFromStruct_cases[of node h data])
    case (Struct m h1 fs)
    then have e: "m = node" "h1 = h" "w = VStruct fs" using un pw by simp_all
    have g: "goodEntries (map fieldEntry fs)" "\<forall>f\<in>set fs. fieldExported f"
      using gd e goodFields_entries[of fs] by simp_all
    have dk: "distinct (map fst (map fieldEntry fs))"
      using gd e by (simp add: fieldEntry_def comp_def)
    have "loopInv ?h2 node (set (odds ts)) (map fieldEntry fs)"
      using tree_loopInv[OF tr[unfolded t] df[unfolded t] _ _ dk g(1) l2 s2 c2] ft e
      by (simp add: fitsFields_entries)
    then show ?thesis using 13(1)[OF Struct(1) refl Struct(2) refl, of "set (odds ts)"] g(2) Struct(3) e
      by simp
  next
    case (Map m h1 es)
    then have e: "m = node" "h1 = h" "w = VMap True es" using un pw by simp_all
    have "loopInv ?h2 node (set (odds ts)) es"
      using tree_loopInv[OF tr[unfolded t] df[unfolded t] _ _ _ _ l2 s2 c2] ft gd e by simp
    then show ?thesis using 13(2)[OF Map(1) refl Map(2) refl, of "set (odds ts)"] Map(3) e by simp
  next
    case (KeyErr m h1 es)
    then show ?thesis using rm by (simp add: recordOrMap_def)
  next
    case (Other m h1)
    then show ?thesis using rm by (auto simp: recordOrMap_def split: option.splits gval.splits)
  qed (use un in simp_all)
next
  case (14 mappingNode h)
  then show ?case by simp
next
  case (15 mappingNode f fs h)
  obtain name tag ex v where f: "f = Field name tag ex v" by (cases f)
  have fe: "fieldEntry f = (yamlKey name tag, v)" using f by (simp add: fieldEntry_def)
  have inv: "loopInv h mappingNode F ((yamlKey name tag, v) # map fieldEntry fs)"
    using 15(3) fe by simp
  have "loopInv h mappingNode F [fieldEntry f]"
    using loopInv_single[OF inv] fe by simp
  then obtain h1 where u: "updateField mappingNode f h = Ok () h1" using 15(1) 15(4) by auto
  obtain F' where "loopInv h1 mappingNode F' (map fieldEntry fs)"
    using updateField_inv[OF inv u[unfolded f] refl] by blast
  then have "\<exists>h'. structLoop mappingNode fs h1 = Ok () h'" using 15(2)[OF u] 15(4) by simp
  then show ?case using u by simp
next
  case (16 mappingNode name tag exported v h)
  let ?key = "if tag = [] then name else tag"
  have key: "yamlKey name tag = ?key" by (simp add: yamlKey_def)
  have ex: "exported" using 16(4) by simp
  have ml: "mappingNode < length h" and pi: "pairsInv h (Content (h ! mappingNode)) F [(?key, v)]"
    using 16(3) by (simp_all add: loopInv_def fieldEntry_def yamlKey_def)
  note hd = pairsInv_head[OF pi]
  show ?case
  proof (cases "findNodes h mappingNode ?key")
    case (Found k vn)
    obtain t where t: "rootOf t = vn" "isTree h t" "docfree h (set (addrs t))" "fits h vn v"
      using hd(4)[of k vn] Found by (auto simp: findNodes_def)
    have "\<exists>h'. updateNode (\<not> exported) vn v h = Ok () h'"
      using 16(1)[OF refl Found _ t(2,1,3,4) hd(1)] ex by simp
    then show ?thesis using Found by (simp add: Let_def)
  next
    case NotFound
    obtain h0 where a: "appendPair mappingNode ?key h = Some ((length h, Suc (length h)), h0)"
      and n: "Suc (length h) < length h0" "Content (h0 ! Suc (length h)) = []"
        "Kind (h0 ! Suc (length h)) \<noteq> DocumentNode"
      using appendPair_ready[OF hd(2) ml] by blast
    note ft = fresh_tree[OF n, of v]
    have "\<exists>h'. updateNode (\<not> exported) (Suc (length h)) v h0 = Ok () h'"
      using 16(2)[OF refl NotFound a refl refl, of "T (Suc (length h)) []"] ft hd(1) ex by simp
    then show ?thesis using NotFound a by (simp add: Let_def)
  next
    case FindPanic
    then show ?thesis using scanPairs_even[OF hd(2)] by (simp add: findNodes_def)
  qed
next
  case (17 mappingNode h)
  then show ?case by simp
next
  case (18 mappingNode keyStr v es h)
  note inv = 18(5)
  have ml: "mappingNode < length h"
    and pi: "pairsInv h (Content (h ! mappingNode)) F ((keyStr, v) # es)"
    using inv by (simp_all add: loopInv_def)
  note hd = pairsInv_head[OF pi]
  have yk: "yamlKey keyStr keyStr = keyStr" by (simp add: yamlKey_def)
  show ?case
  proof (cases "findNodes h mappingNode keyStr")
    case (Found k vn)
    obtain t where t: "rootOf t = vn" "isTree h t" "docfree h (set (addrs t))" "fits h vn v"
      using hd(4)[of k vn] Found by (auto simp: findNodes_def)
    obtain h1 where u: "updateNode False vn v h = Ok () h1"
      using 18(1)[OF Found _ t(2,1,3,4) hd(1)] by auto
    have "updateField mappingNode (Field keyStr keyStr True v) h = Ok () h1"
      using Found u by (simp add: Let_def)
    then obtain F' where "loopInv h1 mappingNode F' es" using updateField_inv[OF inv _ yk] by blast
    then have "\<exists>h'. mapLoop mappingNode es h1 = Ok () h'" using 18(2)[OF Found u] by simp
    then show ?thesis using Found u by simp
  next
    case NotFound
    obtain h0 where a: "appendPair mappingNode keyStr h = Some ((length h, Suc (length h)), h0)"
      and n: "Suc (length h) < length h0" "Content (h0 ! Suc (length h)) = []"
        "Kind (h0 ! Suc (length h)) \<noteq> DocumentNode"
      using appendPair_ready[OF hd(2) ml] by blast
    note ft = fresh_tree[OF n, of v]
    obtain h1 where u: "updateNode False (Suc (length h)) v h0 = Ok () h1"
      using 18(3)[OF NotFound a refl refl, of "T (Suc (length h)) []"] ft hd(1) by auto
    have "updateField mappingNode (Field keyStr keyStr True v) h = Ok () h1"
      using NotFound a u by (simp add: Let_def)
    then obtain F' where "loopInv h1 mappingNode F' es" using updateField_inv[OF inv _ yk] by blast
    then have "\<exists>h'. mapLoop mappingNode es h1 = Ok () h'"
      using 18(4)[OF NotFound a refl refl u] by simp
    then show ?thesis using NotFound a u by simp
  next
    case FindPanic
    then show ?thesis using scanPairs_even[OF hd(2)] by (simp add: findNodes_def)
  qed
next
  case (19 ro node vs h)
  note nr = 19(2) and tr = 19(3) and rt = 19(4) and df = 19(5) and fe = 19(6) and g = 19(7)
  obtain ts where t: "t = T node ts" using rt by (cases t) simp
  let ?h1 = "retag node SequenceNode ''!!seq'' h"
  let ?oc = "Content (h ! node)"
  have "elemsInv ?h1 ?oc (set ts) vs"
    using tree_elemsInv[OF tr[unfolded t] df[unfolded t] fe g, of ?h1] by (simp add: retag_def)
  then obtain nc h2 where "seqLoop ro node 0 vs ?oc (baseIndentOf node ?oc ?h1) [] ?h1 = Ok nc h2"
    using 19(1)[OF refl refl refl refl refl nr, of "set ts"] by auto
  then show ?case by (simp add: updateSequence.simps Let_def)
next
  case (20 ro node i originalContent baseIndent newContent h)
  then show ?case by simp
next
  case (21 ro node i v vs originalContent baseIndent newContent h)
  note nr = 21(3) and ei = 21(4)
  obtain e h1 where c: "createOrReuseNode node i originalContent baseIndent h = (e, h1)"
    by (metis prod.collapse)
  obtain t where t: "isTree h1 t" "rootOf t = e" "docfree h1 (set (addrs t))" "fits h1 e v" "good v"
    using createOrReuseNode_ready[OF ei c] by blast
  obtain h2 where u: "updateNode ro e v h1 = Ok () h2"
    using 21(1)[OF c[symmetric] nr t] by auto
  obtain F' where "elemsInv h2 (drop (Suc i) originalContent) F' vs"
    using createOrReuseNode_inv[OF ei c u] by blast
  then have "\<exists>nc h'. seqLoop ro node (Suc i) vs originalContent baseIndent (newContent @ [e]) h2 = Ok nc h'"
    using 21(2)[OF c[symmetric] u nr] by simp
  then show ?case using c u by simp
next
  case (22 ro node es h)
  note nr = 22(2) and tr = 22(3) and rt = 22(4) and df = 22(5) and ev = 22(6) and fe = 22(7)
    and dk = 22(8) and g = 22(9)
  obtain ts where t: "t = T node ts" using rt by (cases t) simp
  let ?h1 = "retag node MappingNode ''!!map'' h"
  let ?oc = "Content (h ! node)"
  have "pairsInv ?h1 ?oc (set (odds ts)) es"
    using tree_pairsInv_keep[OF tr[unfolded t] df[unfolded t] ev fe dk g, of ?h1]
    by (simp add: retag_def)
  then obtain nc h2 where "mappingLoop ro node es ?oc (baseIndentOf node ?oc ?h1) [] ?h1 = Ok nc h2"
    using 22(1)[OF refl refl refl refl refl nr, of "set (odds ts)"] by auto
  then show ?case by (simp add: updateMapping.simps Let_def)
next
  case (23 ro node originalContent baseIndent newContent h)
  then show ?case by simp
next
  case (24 ro node key v es originalContent baseIndent newContent h)
  note nr = 24(3) and pi = 24(4)
  obtain kn vn h1 t where c: "createOrReusePair node key originalContent baseIndent h = Some ((kn, vn), h1)"
    and t: "isTree h1 t" "rootOf t = vn" "docfree h1 (set (addrs t))" "fits h1 vn v" "good v"
    using createOrReusePair_ready[OF pi] by blast
  obtain h2 where u: "updateNode ro vn v h1 = Ok () h2"
    using 24(1)[OF nr c refl refl nr t] by auto
  obtain F' where "pairsInv h2 originalContent F' es"
    using createOrReusePair_inv[OF pi c u] by blast
  then have "\<exists>nc h'. mappingLoop ro node es originalContent baseIndent (newContent @ [kn, vn]) h2 = Ok nc h'"
    using 24(2)[OF nr c refl refl u nr] by simp
  then show ?case using nr c u by simp
qed

lemma unwrap_tree:
  assumes doc: "Kind (h ! node) = DocumentNode" and nl: "node < length h"
    and ch: "Content (h ! node) = [rootOf t]"
    and tr: "isTree h t" and nt: "node \<notin> set (addrs t)"
  shows "\<exists>h3. unwrapDocument node h = Unwrapped (rootOf t) h3 \<and> length h3 = length h \<and>
           (\<forall>b<length h. Content (h3 ! b) = Content (h ! b) \<and> Value (h3 ! b) = Value (h ! b) \<and>
              Kind (h3 ! b) = Kind (h ! b))"
proof -
  let ?c = "rootOf t" and ?S = "set (addrs t)"
  let ?off = "Column (h ! ?c)"
  let ?h1 = "h[node := (h ! node)\<lparr>Column := 0\<rparr>]"
  let ?h2 = "?h1[?c := (?h1 ! ?c)\<lparr>Column := 0\<rparr>]"
  have sh: "shape h t" and di: "distinct (addrs t)" using tr by (simp_all add: isTree_def)
  have sh2: "shape ?h2 t" using sh by (rule shape_same) (auto simp: nth_upd)
  have "height t \<le> length ?h2" using isTree_height[OF tr] by simp
  from adjust_tree[OF sh2 di this] obtain h3 where
    a3: "adjustNodeColumns (length ?h2) ?c ?off ?h2 = Some h3" and s3: "shifted ?off ?S ?h2 h3"
    by blast
  have un: "unwrapDocument node h = Unwrapped ?c h3"
    using doc ch a3 by (simp add: unwrapDocument_def Let_def)
  have l3: "length h3 = length h" using s3 by (simp add: shifted_def)
  have "Content (h3 ! b) = Content (h ! b) \<and> Value (h3 ! b) = Value (h ! b) \<and> Kind (h3 ! b) = Kind (h ! b)"
    if "b < length h" for b
  proof -
    have "h3 ! b = (if b \<in> ?S then (?h2 ! b)\<lparr>Column := shiftCol ?off (Column (?h2 ! b))\<rparr> else ?h2 ! b)"
      using s3 that by (simp add: shifted_def)
    then show ?thesis by (auto simp: nth_upd)
  qed
  then show ?thesis using un l3 by blast
qed

lemma same_tree:
  assumes tr: "isTree h t" and df: "docfree h (set (addrs t))" and l: "length h3 = length h"
    and same: "\<forall>b<length h. Content (h3 ! b) = Content (h ! b) \<and> Value (h3 ! b) = Value (h ! b) \<and>
                 Kind (h3 ! b) = Kind (h ! b)"
  shows "isTree h3 t \<and> docfree h3 (set (addrs t)) \<and> fits h3 (rootOf t) w = fits h (rootOf t) w"
proof -
  have sh: "shape h t" using tr by (simp add: isTree_def)
  have b: "set (addrs t) \<subseteq> {..<length h}" using sh by (rule shape_addrs)
  have "shape h3 t" using sh l same by (intro shape_same[of h t h3]) auto
  then have "isTree h3 t" using tr by (simp add: isTree_def)
  moreover have "docfree h3 (set (addrs t))" using df same b by (auto simp: docfree_def)
  moreover have "fits h3 (rootOf t) w = fits h (rootOf t) w"
    using fits_cong(1)[OF shape_closed[OF sh], of h3 "rootOf t" w] same b rootOf_in_addrs[of t]
    by auto
  ultimately show ?thesis by blast
qed

lemma updateYamlFromStruct_unwrap:
  assumes "unwrapDocument node h = Unwrapped c h3" and "Kind (h3 ! c) \<noteq> DocumentNode"
  shows "updateYamlFromStruct node data h = updateYamlFromStruct c data h3"
  using assms by (simp add: updateYamlFromStruct.simps unwrapDocument_def)

lemma fitsCall_result:
  assumes nl: "node < length h" and fc: "fitsCall h node t data"
  shows "(recordOrMap data \<longrightarrow> (\<exists>h'. updateYamlFromStruct node data h = Ok () h')) \<and>
         (\<not> recordOrMap data \<longrightarrow> isErr (updateYamlFromStruct node data h)) \<and>
         \<not> badDocument h node"
proof -
  have tr: "isTree h t" and df: "docfree h (set (addrs t))" using fc by (simp_all add: fitsCall_def)
  obtain c h3 where un: "unwrapDocument node h = Unwrapped c h3" and c: "c = rootOf t"
    and l: "length h3 = length h"
    and same: "\<forall>b<length h. Content (h3 ! b) = Content (h ! b) \<and> Value (h3 ! b) = Value (h ! b) \<and>
                 Kind (h3 ! b) = Kind (h ! b)"
  proof (cases "Kind (h ! node) = DocumentNode")
    case True
    then have "Content (h ! node) = [rootOf t]" "node \<notin> set (addrs t)" using fc by (simp_all add: fitsCall_def)
    then show ?thesis using unwrap_tree[OF True nl _ tr] that by blast
  next
    case False
    then have "unwrapDocument node h = Unwrapped node h" "rootOf t = node"
      using fc by (simp_all add: unwrapDocument_def fitsCall_def)
    then show ?thesis using that by simp
  qed
  note st = same_tree[OF tr df l same]
  have nd: "Kind (h3 ! c) \<noteq> DocumentNode"
    using st c rootOf_in_addrs[of t] by (auto simp: docfree_def)
  have eq: "updateYamlFromStruct node data h = updateYamlFromStruct c data h3"
    using updateYamlFromStruct_unwrap[OF un nd] .
  have nb: "\<not> badDocument h node" using un unwrapDocument_Bad[of node h] by (simp add: badDocument_def)
  have un3: "unwrapDocument c h3 = Unwrapped c h3" using nd by (simp add: unwrapDocument_def)
  have ok: "\<exists>h'. updateYamlFromStruct c data h3 = Ok () h'" if rm: "recordOrMap data"
  proof -
    from rm obtain w where w: "ptrElem (ValueOf data) = Some w"
      by (auto simp: recordOrMap_def split: option.splits)
    then have "fits h (rootOf t) w" "good w" using fc rm by (simp_all add: fitsCall_def)
    then have "fits h3 c w" using st c by simp
    then show ?thesis using merge_ok(2)[of h3 t c data w] st c w rm \<open>good w\<close> by simp
  qed
  have er: "isErr (updateYamlFromStruct c data h3)" if nr: "\<not> recordOrMap data"
  proof (cases rule: updateYamlFromStruct_cases[of c h3 data])
    case (Struct m h1 fs)
    then show ?thesis using nr by (simp add: recordOrMap_def)
  next
    case (Map m h1 es)
    then show ?thesis using nr by (simp add: recordOrMap_def)
  qed (use un3 in simp_all)
  show ?thesis using eq ok er nb by simp
qed

subsection \<open>The examples, evaluated\<close>

lemma bob_merge: "updateYamlFromStruct 0 bobRecord bobStore = Ok () bobMerged"
  by code_simp


lemma seq_merge:
  "updateNode False 0 (VSlice [VString ''hiking'', VString ''gaming'', VString ''reading'']) seqStore
     = Ok () seqMerged"
  by code_simp

lemma four_merge:
  "case updateYamlFromStruct 0 fourRecord fourStore of
     Ok u h' \<Rightarrow> Content (h' ! 1) = [2, 3, 6, 7] \<and> Content (h' ! 7) = [8, 9] \<and>
                Value (h' ! 8) = ''x'' \<and> Column (h' ! 7) = 4 \<and> Column (h' ! 8) = 6
   | Err e h' \<Rightarrow> False | Panic c \<Rightarrow> False"
  by code_simp

lemma four_indent: "detectIndentation fourText = 4"
  by code_simp

lemma city_field:
  "case updateField 1 (Field ''City'' ''city'' True (VString ''Gotham'')) bobStore of
     Ok u h' \<Rightarrow> Value (h' ! 7) = ''Gotham''
   | Err e h' \<Rightarrow> False | Panic c \<Rightarrow> False"
  by code_simp



lemma ports_merge:
  "case updateYamlFromStruct 0 portsRecord bobStore of
     Ok u h' \<Rightarrow> keysOf h' 1 = [''name'', ''age'', ''ports''] \<and> keysOf h' 7 = [''80'']
   | Err e h' \<Rightarrow> False | Panic c \<Rightarrow> False"
  by code_simp

lemma age_merge:
  "case updateYamlFromStruct 1 (VStruct [Field ''Age'' ''age'' True (VInt 21)]) bobStore of
     Ok u h' \<Rightarrow> Value (h' ! 5) = ''21''
   | Err e h' \<Rightarrow> False | Panic c \<Rightarrow> False"
  by code_simp

lemma bob_sep:
  "closed bobStore {5} \<and>
   sepNamed (fieldKeys [Field ''Age'' ''age'' True (VInt 21)]) bobStore {5} (Content (bobStore ! 1)) \<and>
   set (Content (bobStore ! 1)) \<subseteq> {..<length bobStore} \<and> 1 \<notin> set (Content (bobStore ! 1)) \<and>
   Value (bobStore ! 2) \<notin> fieldKeys [Field ''Age'' ''age'' True (VInt 21)]"
  by (simp add: closed_def fieldKeys_def yamlKey_def bobStore_def zeroNode_def)

lemma bob_tree:
  "isTree bobStore bobTree \<and> Content (bobStore ! 0) = [rootOf bobTree] \<and>
   0 \<notin> set (addrs bobTree) \<and> docfree bobStore (set (addrs bobTree))"
  by (simp add: isTree_def bobTree_def bobStore_def docfree_def zeroNode_def)




lemma bob_fits:
  "fitsCall bobStore 0 bobTree bobRecord \<and> fitsCall bobStore 0 bobTree (VSlice [VString ''Bob'']) \<and>
   fitsCall bobStore 0 bobTree portsRecord \<and> \<not> badDocument bobStore 0"
  by code_simp

section \<open>The claims\<close>

text \<open>
  C1. A merge never writes a comment. For every call of the merge, on a document or on
  a node inside one, that returns (with or without an error), every node of the store
  the call started from is still there and has the head, line and foot comment it had.
  This holds for every value merged, so also for a record whose fields cover the keys of
  the mapping.
\<close>

theorem merge_keeps_comments:
  assumes "storeOf (updateYamlFromStruct node data h) = Some h' \<or>
           storeOf (updateNode ro node v h) = Some h'"
    and "b < length h"
  shows "b < length h' \<and> comments (h' ! b) = comments (h ! b)"
proof -
  have "mono h h'"
    using assms(1) storeOf_mono merge_mono(1,2) by blast
  then show ?thesis using assms(2) mono_comments by (auto simp: mono_def)
qed

theorem merge_keeps_comments_witness:
  "storeOf (updateYamlFromStruct 0 bobRecord bobStore) = Some bobMerged \<and> 3 < length bobStore \<and>
   comments (bobStore ! 3) = ([], ''# nickname'', []) \<and>
   comments (bobMerged ! 3) = ([], ''# nickname'', []) \<and> Value (bobMerged ! 5) = ''21''"
proof -
  have s: "storeOf (updateYamlFromStruct 0 bobRecord bobStore) = Some bobMerged"
    by (simp only: bob_merge storeOf.simps)
  have l: "3 < length bobStore" by (simp add: bobStore_def)
  have c: "comments (bobStore ! 3) = ([], ''# nickname'', [])"
    by (simp add: bobStore_def comments_def zeroNode_def)
  have v: "Value (bobMerged ! 5) = ''21''" by (simp add: bobMerged_def)
  from merge_keeps_comments[OF disjI1[OF s] l] c s l v show ?thesis by simp
qed




text \<open>
  C10. A nil interface value changes nothing: merging it into a node returns without an
  error and leaves the store as it was. So an entry of a map whose value is a nil
  interface keeps the pair found under its key, in a nested map (\<open>mappingLoop\<close>) and in a
  map merged at the top (\<open>mapLoop\<close>): the loop goes on with the same store.
\<close>

theorem nil_interface_keeps_node:
  assumes "valueNode < length h"
  shows "updateNode ro valueNode (VIface None) h = Ok () h \<and>
         (scanPairs h originalContent key = Found keyNode valueNode \<longrightarrow>
            mappingLoop False node ((key, VIface None) # es) originalContent baseIndent newContent h =
            mappingLoop False node es originalContent baseIndent (newContent @ [keyNode, valueNode]) h) \<and>
         (findNodes h node key = Found keyNode valueNode \<longrightarrow>
            mapLoop node ((key, VIface None) # es) h = mapLoop node es h)"
proof -
  have "restore valueNode (Style (h ! valueNode)) (Column (h ! valueNode)) h = h"
    by (simp add: restore_def)
  then show ?thesis by (simp add: createOrReusePair_def)
qed

theorem nil_interface_keeps_node_witness:
  "5 < length bobStore \<and> updateNode False 5 (VIface None) bobStore = Ok () bobStore \<and>
   scanPairs bobStore [2, 3, 4, 5] ''age'' = Found 4 5 \<and>
   mappingLoop False 1 [(''age'', VIface None)] [2, 3, 4, 5] 0 [] bobStore = Ok [4, 5] bobStore \<and>
   findNodes bobStore 1 ''age'' = Found 4 5 \<and>
   mapLoop 1 [(''age'', VIface None)] bobStore = Ok () bobStore"
proof -
  have l: "5 < length bobStore" by (simp add: bobStore_def)
  have s: "scanPairs bobStore [2, 3, 4, 5] ''age'' = Found 4 5"
    by (simp add: bobStore_def zeroNode_def)
  have f: "findNodes bobStore 1 ''age'' = Found 4 5"
    by (simp add: findNodes_def bobStore_def zeroNode_def)
  from nil_interface_keeps_node[OF l, of False "[2, 3, 4, 5]" "''age''" 4 1 "[]" 0 "[]"] l s f
  show ?thesis by simp
qed

text \<open>
  C4. Merging a sequence of N values into a node with M children leaves N children: the
  first min(N, M) are the node's old children, the same nodes at the same positions,
  whatever they hold; they are followed by N - M (none when N \<le> M) distinct nodes
  allocated during the merge. Old children at positions from N on are not in the list.
\<close>

theorem sequence_positional:
  assumes "node < length h" and "updateNode ro node (VSlice vs) h = Ok u h'"
  shows "\<exists>F. Content (h' ! node) = take (length vs) (Content (h ! node)) @ F \<and>
           length F = length vs - length (Content (h ! node)) \<and>
           distinct F \<and> set F \<subseteq> {length h..<length h'}"
proof -
  from assms(2) obtain h1 where s: "updateSequence ro node vs h = Ok () h1"
    and h': "h' = restore node (Style (h ! node)) (Column (h ! node)) h1"
    by (auto split: res.splits)
  have "length h \<le> length h1" using merge_mono(6)[of h ro node vs] s by (simp add: mono_def)
  then have "Content (h' ! node) = Content (h1 ! node)" "length h' = length h1"
    using h' assms(1) by (simp_all add: restore_def)
  then show ?thesis using updateSequence_content[OF assms(1) s] by simp
qed

theorem sequence_positional_witness:
  "0 < length seqStore \<and>
   updateNode False 0 (VSlice [VString ''hiking'', VString ''gaming'', VString ''reading'']) seqStore
     = Ok () seqMerged \<and>
   Content (seqStore ! 0) = [1, 2] \<and> length seqStore = 3 \<and> length seqMerged = 4 \<and>
   (\<exists>F. Content (seqMerged ! 0) = take 3 [1, 2] @ F \<and> length F = 3 - 2 \<and> distinct F \<and>
        set F \<subseteq> {3..<4})"
proof -
  have l: "0 < length seqStore" by (simp add: seqStore_def)
  have c: "Content (seqStore ! 0) = [1, 2]" "length seqStore = 3" "length seqMerged = 4"
    by (simp_all add: seqStore_def seqMerged_def)
  from sequence_positional[OF l seq_merge] l c seq_merge show ?thesis by simp
qed

text \<open>
  C6, as the code has it. When a record field's key is absent from the mapping and the
  merge of the field returns, a new pair stands at the end of the mapping's children:
  the key node is a Scalar tagged \<^verbatim>\<open>!!str\<close> holding the key. If the mapping had children,
  the new key takes the style and column of the mapping's first child and the new value
  those of its second child; otherwise both new nodes have the zero style and the
  parent's column plus 2 (in the arithmetic of \<^verbatim>\<open>int\<close>), whatever the indent width of the source.
\<close>

theorem updateField_new_pair:
  assumes "mappingNode < length h"
    and "findNodes h mappingNode (yamlKey name tag) = NotFound"
    and "updateField mappingNode (Field name tag exported v) h = Ok u h'"
  shows "Content (h' ! mappingNode) = Content (h ! mappingNode) @ [length h, Suc (length h)] \<and>
         Kind (h' ! length h) = ScalarNode \<and> Tag (h' ! length h) = ''!!str'' \<and>
         Value (h' ! length h) = yamlKey name tag \<and>
         (if Content (h ! mappingNode) \<noteq> []
          then Style (h' ! length h) = Style (h ! (Content (h ! mappingNode) ! 0)) \<and>
               Column (h' ! length h) = Column (h ! (Content (h ! mappingNode) ! 0)) \<and>
               Style (h' ! Suc (length h)) = Style (h ! (Content (h ! mappingNode) ! 1)) \<and>
               Column (h' ! Suc (length h)) = Column (h ! (Content (h ! mappingNode) ! 1))
          else Style (h' ! length h) = 0 \<and> Column (h' ! length h) = Column (h ! mappingNode) + 2 \<and>
               Style (h' ! Suc (length h)) = 0 \<and>
               Column (h' ! Suc (length h)) = Column (h ! mappingNode) + 2)"
proof -
  let ?k = "length h" and ?v = "Suc (length h)"
  obtain h1 where a: "appendPair mappingNode (yamlKey name tag) h = Some ((?k, ?v), h1)"
    and u: "updateNode (\<not> exported) ?v v h1 = Ok u h'"
    using updateField_NotFound[OF assms(2,3)] by blast
  note n = appendPair_nodes[OF a assms(1)]
  have l1: "length h1 = length h + 2" using n by simp
  have c: "closed h1 {?v}" using n l1 by (simp add: closed_def)
  have f: "frame {?v} h1 h'" using updateNode_frame[OF u _ c] by simp
  have k: "h' ! ?k = h1 ! ?k" using frame_same[OF f, of ?k] l1 by simp
  have m: "h' ! mappingNode = h1 ! mappingNode"
    using frame_same[OF f, of mappingNode] l1 assms(1) by simp
  have v: "Style (h' ! ?v) = Style (h1 ! ?v) \<and> Column (h' ! ?v) = Column (h1 ! ?v)"
    using updateNode_restores[OF u] l1 by simp
  show ?thesis using n k m v by (simp split: if_splits)
qed

theorem updateField_new_pair_witness:
  "1 < length bobStore \<and> findNodes bobStore 1 (yamlKey ''City'' ''city'') = NotFound \<and>
   (\<exists>h'. updateField 1 (Field ''City'' ''city'' True (VString ''Gotham'')) bobStore = Ok () h' \<and>
      Content (h' ! 1) = [2, 3, 4, 5, 6, 7] \<and> Kind (h' ! 6) = ScalarNode \<and> Tag (h' ! 6) = ''!!str'' \<and>
      Value (h' ! 6) = ''city'' \<and> Style (h' ! 6) = 0 \<and> Column (h' ! 6) = 1 \<and>
      Style (h' ! 7) = 0 \<and> Column (h' ! 7) = 7 \<and> Value (h' ! 7) = ''Gotham'')"
proof -
  have l: "1 < length bobStore" by (simp add: bobStore_def)
  have f: "findNodes bobStore 1 (yamlKey ''City'' ''city'') = NotFound"
    by (simp add: findNodes_def yamlKey_def bobStore_def zeroNode_def)
  obtain h' where u: "updateField 1 (Field ''City'' ''city'' True (VString ''Gotham'')) bobStore = Ok () h'"
    and g: "Value (h' ! 7) = ''Gotham''"
    using res_case_Ok[OF city_field] by blast
  have b: "length bobStore = 6" "Content (bobStore ! 1) = [2, 3, 4, 5]"
    "Style (bobStore ! 2) = 0" "Column (bobStore ! 2) = 1"
    "Style (bobStore ! 3) = 0" "Column (bobStore ! 3) = 7"
    by (simp_all add: bobStore_def zeroNode_def)
  from updateField_new_pair[OF l f u] b have
    "Content (h' ! 1) = [2, 3, 4, 5, 6, 7] \<and> Kind (h' ! 6) = ScalarNode \<and> Tag (h' ! 6) = ''!!str'' \<and>
      Value (h' ! 6) = ''city'' \<and> Style (h' ! 6) = 0 \<and> Column (h' ! 6) = 1 \<and>
      Style (h' ! 7) = 0 \<and> Column (h' ! 7) = 7"
    by (simp add: yamlKey_def)
  then show ?thesis using l f u g by blast
qed

text \<open>
  C6 as stated fails: the source is indented by 4, the new nested mapping \<^verbatim>\<open>extra\<close> stands
  at column 4 and its new child \<^verbatim>\<open>x\<close> at column 6, not at 4 + 4.
\<close>

theorem new_pair_indent_counterexample:
  "detectIndentation fourText = 4 \<and>
   (\<exists>h'. updateYamlFromStruct 0 fourRecord fourStore = Ok () h' \<and>
      Content (h' ! 1) = [2, 3, 6, 7] \<and> Content (h' ! 7) = [8, 9] \<and> Value (h' ! 8) = ''x'' \<and>
      Column (h' ! 7) = 4 \<and> Column (h' ! 8) = 6 \<and>
      Column (h' ! 8) \<noteq> Column (h' ! 7) + detectIndentation fourText)"
proof -
  obtain h' where "updateYamlFromStruct 0 fourRecord fourStore = Ok () h'"
    "Content (h' ! 1) = [2, 3, 6, 7]" "Content (h' ! 7) = [8, 9]" "Value (h' ! 8) = ''x''"
    "Column (h' ! 7) = 4" "Column (h' ! 8) = 6"
    using res_case_Ok[OF four_merge] by blast
  then show ?thesis using four_indent by auto
qed




text \<open>
  C7, as the code has it. A call on a Document whose number of children is not one returns
  an error. A call on a tree that fits the value (the single child of the Document, or the
  node itself; no Document below; pairs where the value has a struct or a map; every field
  exported, keys distinct) returns an error exactly when the value given to the call, after
  one pointer, is neither a struct nor a map keyed by strings, and returns nil in every
  other case. Nothing below the top of the value makes an error: a map with another key
  type met there is merged, its keys formatted as text.
\<close>

theorem merge_error_iff:
  assumes "node < length h" and "badDocument h node \<or> fitsCall h node t data"
  shows "(isErr (updateYamlFromStruct node data h) \<longleftrightarrow> badDocument h node \<or> \<not> recordOrMap data) \<and>
         (\<not> isErr (updateYamlFromStruct node data h) \<longrightarrow>
            (\<exists>h'. updateYamlFromStruct node data h = Ok () h'))"
proof (cases "badDocument h node")
  case True
  then have "unwrapDocument node h = BadDocument" by (simp add: unwrapDocument_Bad badDocument_def)
  then have "updateYamlFromStruct node data h = Err DocumentChildCount h"
    by (simp add: updateYamlFromStruct.simps)
  then show ?thesis using True by simp
next
  case False
  then have "fitsCall h node t data" using assms(2) by simp
  from fitsCall_result[OF assms(1) this] show ?thesis
    by (cases "recordOrMap data") auto
qed

theorem merge_error_iff_witness:
  "0 < length bobStore \<and> fitsCall bobStore 0 bobTree bobRecord \<and>
   fitsCall bobStore 0 bobTree (VSlice [VString ''Bob'']) \<and> \<not> badDocument bobStore 0 \<and>
   \<not> recordOrMap (VSlice [VString ''Bob'']) \<and>
   isErr (updateYamlFromStruct 0 (VSlice [VString ''Bob'']) bobStore) \<and>
   recordOrMap bobRecord \<and> \<not> isErr (updateYamlFromStruct 0 bobRecord bobStore) \<and>
   updateYamlFromStruct 0 bobRecord bobStore = Ok () bobMerged \<and>
   fitsCall bobStore 0 bobTree portsRecord \<and> recordOrMap portsRecord \<and>
   (\<exists>h'. updateYamlFromStruct 0 portsRecord bobStore = Ok () h')"
proof -
  have l: "0 < length bobStore" by (simp add: bobStore_def)
  have r: "\<not> recordOrMap (VSlice [VString ''Bob''])" "recordOrMap bobRecord" "recordOrMap portsRecord"
    by (simp_all add: recordOrMap_def bobRecord_def portsRecord_def)
  note b = bob_fits
  have "\<exists>h'. updateYamlFromStruct 0 portsRecord bobStore = Ok () h'"
    using merge_error_iff[OF l, of bobTree portsRecord] b r by simp
  then show ?thesis
    using merge_error_iff[OF l, of bobTree "VSlice [VString ''Bob'']"]
      merge_error_iff[OF l, of bobTree bobRecord] b l r bob_merge by simp
qed

text \<open>
  C7 as stated fails: a field of type \<^verbatim>\<open>map[int]string\<close> is merged without an error, under
  the key \<^verbatim>\<open>80\<close>.
\<close>

theorem nonstring_key_counterexample:
  "\<exists>h'. updateYamlFromStruct 0 portsRecord bobStore = Ok () h' \<and>
      keysOf h' 1 = [''name'', ''age'', ''ports''] \<and> keysOf h' 7 = [''80'']"
  using res_case_Ok[OF ports_merge] by blast

text \<open>
  C2. A record merged into a mapping node deletes nothing. The node is a Mapping of the
  store, its children are nodes of the store other than itself, and a closed set \<open>V\<close>
  holds the values of the pairs the record names, none of the keys and not the mapping
  (on a tree: the nodes under the named values). Then, when the merge returns, the
  children are the old children followed by new nodes only, and a pair whose key is not
  among the record's keys and whose value is outside \<open>V\<close> is still a pair of the mapping,
  its key node and its value node exactly as they were.
\<close>

theorem record_keeps_other_pairs:
  assumes "updateYamlFromStruct node (VStruct fs) h = Ok u h'"
    and "Kind (h ! node) = MappingNode" and "node < length h"
    and "set (Content (h ! node)) \<subseteq> {..<length h}" and "node \<notin> set (Content (h ! node))"
    and "closed h V" and "node \<notin> V"
    and "sepNamed (fieldKeys fs) h V (Content (h ! node))"
    and "(k, v) \<in> set (pairsOf (Content (h ! node)))"
    and "Value (h ! k) \<notin> fieldKeys fs" and "v \<notin> V"
  shows "(k, v) \<in> set (pairsOf (Content (h' ! node))) \<and> h' ! k = h ! k \<and> h' ! v = h ! v \<and>
         (\<exists>extra. Content (h' ! node) = Content (h ! node) @ extra \<and>
            set extra \<subseteq> {length h..<length h'})"
proof -
  have un: "unwrapDocument node h = Unwrapped node h" using assms(2) by (simp add: unwrapDocument_def)
  have am: "asMapping node h = h" using assms(2) by (simp add: asMapping_def)
  have "structLoop node fs h = Ok u h'"
    using assms(1) un am by (simp add: updateYamlFromStruct.simps)
  then have kp: "kept node V h h'"
    using structLoop_keeps[OF _ assms(6,7,3,4,8)] by simp
  then obtain extra where e: "h' ! node = (h ! node)\<lparr>Content := Content (h ! node) @ extra\<rparr>"
    "set extra \<subseteq> {length h..<length h'}" and same: "\<forall>b<length h. b \<notin> V \<longrightarrow> b \<noteq> node \<longrightarrow> h' ! b = h ! b"
    unfolding kept_def by blast
  have c: "Content (h' ! node) = Content (h ! node) @ extra" using e(1) by simp
  have kv: "k \<in> set (Content (h ! node))" "v \<in> set (Content (h ! node))"
    using pairsOf_set[OF assms(9)] by simp_all
  then have "k < length h" "v < length h" "k \<noteq> node" "v \<noteq> node" using assms(4,5) by auto
  moreover have "k \<notin> V" using pairsOf_sep[OF assms(9,8)] .
  ultimately have "h' ! k = h ! k" "h' ! v = h ! v" using same assms(11) by simp_all
  moreover have "(k, v) \<in> set (pairsOf (Content (h' ! node)))"
    using pairsOf_append[OF assms(8), of extra] assms(9) c by auto
  ultimately show ?thesis using c e(2) by blast
qed

theorem record_keeps_other_pairs_witness:
  "Kind (bobStore ! 1) = MappingNode \<and> 1 < length bobStore \<and>
   set (Content (bobStore ! 1)) \<subseteq> {..<length bobStore} \<and> 1 \<notin> set (Content (bobStore ! 1)) \<and>
   closed bobStore {5} \<and> 1 \<notin> {5 :: nat} \<and>
   sepNamed (fieldKeys [Field ''Age'' ''age'' True (VInt 21)]) bobStore {5} (Content (bobStore ! 1)) \<and>
   (2, 3) \<in> set (pairsOf (Content (bobStore ! 1))) \<and>
   Value (bobStore ! 2) \<notin> fieldKeys [Field ''Age'' ''age'' True (VInt 21)] \<and> 3 \<notin> {5 :: nat} \<and>
   (\<exists>h'. updateYamlFromStruct 1 (VStruct [Field ''Age'' ''age'' True (VInt 21)]) bobStore = Ok () h' \<and>
      Value (h' ! 5) = ''21'' \<and>
      (2, 3) \<in> set (pairsOf (Content (h' ! 1))) \<and> h' ! 2 = bobStore ! 2 \<and> h' ! 3 = bobStore ! 3)"
proof -
  have a: "Kind (bobStore ! 1) = MappingNode" "1 < length bobStore"
    "(2, 3) \<in> set (pairsOf (Content (bobStore ! 1)))"
    by (simp_all add: bobStore_def)
  have n: "1 \<notin> {5 :: nat}" "3 \<notin> {5 :: nat}" by simp_all
  note b = bob_sep
  obtain h' where u: "updateYamlFromStruct 1 (VStruct [Field ''Age'' ''age'' True (VInt 21)]) bobStore = Ok () h'"
    and g: "Value (h' ! 5) = ''21''"
    using res_case_Ok[OF age_merge] by blast
  have "(2, 3) \<in> set (pairsOf (Content (h' ! 1))) \<and> h' ! 2 = bobStore ! 2 \<and> h' ! 3 = bobStore ! 3"
    using record_keeps_other_pairs[OF u a(1,2) _ _ _ n(1) _ a(3) _ n(2)] b by blast
  then show ?thesis using a n b u g by blast
qed

text \<open>
  C8. After a successful merge into a Document node, once \<^verbatim>\<open>UpdateYAML\<close> has set its two
  columns, the Document node and its single child have column 0, and every other node below
  has its column decreased by the offset (the column the child had) exactly when that
  column was strictly greater than the offset, and unchanged otherwise: the column is
  \<open>shiftCol\<close> of the old one, computed as the code computes it. When the offset is not
  negative, as the columns of a parsed text are, the subtraction does not wrap: the new
  column is the old one minus the offset as integers, and a column that was not negative
  is not negative afterwards. The nodes below the Document node form a tree with no
  Document node in it, as a parsed text gives.
\<close>

theorem root_columns_normalized:
  assumes ok: "updateYamlFromStruct node data h = Ok u h'"
    and doc: "Kind (h ! node) = DocumentNode" and nl: "node < length h"
    and ch: "Content (h ! node) = [rootOf t]"
    and tr: "isTree h t" and nt: "node \<notin> set (addrs t)"
    and nd: "docfree h (set (addrs t))"
  shows "Column (rootColumnsZero node h' ! node) = 0 \<and>
         Content (rootColumnsZero node h' ! node) = [rootOf t] \<and>
         Column (rootColumnsZero node h' ! rootOf t) = 0 \<and>
         (\<forall>b\<in>set (addrs t). b \<noteq> rootOf t \<longrightarrow>
            Column (rootColumnsZero node h' ! b) = shiftCol (Column (h ! rootOf t)) (Column (h ! b))) \<and>
         (0 \<le> sint (Column (h ! rootOf t)) \<longrightarrow>
            (\<forall>b\<in>set (addrs t). b \<noteq> rootOf t \<longrightarrow>
               sint (Column (rootColumnsZero node h' ! b)) =
                 (if sint (Column (h ! b)) > sint (Column (h ! rootOf t))
                  then sint (Column (h ! b)) - sint (Column (h ! rootOf t))
                  else sint (Column (h ! b))) \<and>
               (0 \<le> sint (Column (h ! b)) \<longrightarrow> 0 \<le> sint (Column (rootColumnsZero node h' ! b)))))"
proof -
  let ?c = "rootOf t" and ?S = "set (addrs t)"
  let ?off = "Column (h ! ?c)"
  let ?h1 = "h[node := (h ! node)\<lparr>Column := 0\<rparr>]"
  let ?h2 = "?h1[?c := (?h1 ! ?c)\<lparr>Column := 0\<rparr>]"
  have sh: "shape h t" and di: "distinct (addrs t)" using tr by (simp_all add: isTree_def)
  have cS: "?c \<in> ?S" by (rule rootOf_in_addrs)
  have cn: "?c \<noteq> node" using cS nt by auto
  have cl: "?c < length h" using sh by (rule shape_root)
  have SL: "?S \<subseteq> {..<length h}" using sh by (rule shape_addrs)
  have sh2: "shape ?h2 t" using sh by (rule shape_same) (auto simp: nth_upd)
  have "height t \<le> length ?h2" using isTree_height[OF tr] by simp
  from adjust_tree[OF sh2 di this] obtain h3 where
    a3: "adjustNodeColumns (length ?h2) ?c ?off ?h2 = Some h3" and s3: "shifted ?off ?S ?h2 h3"
    by blast
  have un: "unwrapDocument node h = Unwrapped ?c h3"
    using doc ch a3 by (simp add: unwrapDocument_def Let_def)
  let ?h4 = "asMapping ?c h3"
  have l3: "length h3 = length h" using s3 by (simp add: shifted_def)
  have l4: "length ?h4 = length h" using l3 by (simp add: asMapping_def)
  have n3: "h3 ! b = (if b \<in> ?S then (?h2 ! b)\<lparr>Column := shiftCol ?off (Column (?h2 ! b))\<rparr> else ?h2 ! b)"
    if "b < length h" for b using s3 that by (simp add: shifted_def)
  have sh4: "shape ?h4 t"
    using shifted_shape[OF s3 sh2] by (rule shape_same) (auto simp: asMapping_def nth_upd)
  have c4: "closed ?h4 ?S" using sh4 by (rule shape_closed)
  have k3: "Kind (h3 ! b) = Kind (h ! b)" if "b < length h" for b
    using n3[OF that] by (auto simp: nth_upd)
  have d4: "docfree ?h4 ?S"
    unfolding docfree_def
  proof
    fix b assume b: "b \<in> ?S"
    then have "b < length h" using SL by auto
    then have "Kind (h3 ! b) = Kind (h ! b)" by (rule k3)
    then show "Kind (?h4 ! b) \<noteq> DocumentNode"
      using nd b by (auto simp: docfree_def asMapping_def nth_upd)
  qed
  have f: "frame ?S ?h4 h'"
  proof (cases rule: updateYamlFromStruct_cases[of node h data])
    case (Struct m h1 fs)
    then have "structLoop ?c fs ?h4 = Ok u h'" using un ok by simp
    then show ?thesis using merge_frame(3)[OF cS c4, of fs] by simp
  next
    case (Map m h1 es)
    then have "mapLoop ?c es ?h4 = Ok u h'" using un ok by simp
    then show ?thesis using merge_frame(5)[OF cS c4, of es] by simp
  qed (use ok un in simp_all)
  have cols: "Column (h' ! b) = Column (?h4 ! b)" if "b < length h" for b
    using f d4 that l4 by (simp add: frame_def)
  have l': "length h \<le> length h'" using frame_length[OF f] l4 by simp
  have node': "h' ! node = (h ! node)\<lparr>Column := 0\<rparr>"
  proof -
    have "h' ! node = ?h4 ! node" using frame_same[OF f, of node] nl nt l4 by simp
    also have "\<dots> = h3 ! node" using cn by (simp add: asMapping_def nth_upd)
    also have "\<dots> = ?h2 ! node" using n3[OF nl] nt by simp
    also have "\<dots> = (h ! node)\<lparr>Column := 0\<rparr>" using cn nl by (simp add: nth_upd)
    finally show ?thesis .
  qed
  have below: "Column (h' ! b) = shiftCol ?off (Column (h ! b))" if "b \<in> ?S" "b \<noteq> ?c" for b
  proof -
    have bl: "b < length h" using that SL by auto
    have bn: "b \<noteq> node" using that nt by auto
    have "Column (h' ! b) = Column (?h4 ! b)" using cols[OF bl] .
    also have "\<dots> = Column (h3 ! b)" by (simp add: asMapping_def nth_upd)
    also have "\<dots> = shiftCol ?off (Column (?h2 ! b))" using n3[OF bl] that by simp
    also have "\<dots> = shiftCol ?off (Column (h ! b))" using that bn by (simp add: nth_upd)
    finally show ?thesis .
  qed
  let ?g1 = "h'[node := (h' ! node)\<lparr>Column := 0\<rparr>]"
  have g1: "Content (?g1 ! node) = [?c]" using node' ch nl l' by (simp add: nth_upd)
  have rz: "rootColumnsZero node h' = ?g1[?c := (?g1 ! ?c)\<lparr>Column := 0\<rparr>]"
    using g1 by (simp add: rootColumnsZero_def Let_def)
  have "Column (rootColumnsZero node h' ! node) = 0" using rz cn nl l' by (simp add: nth_upd)
  moreover have "Content (rootColumnsZero node h' ! node) = [?c]"
    using rz g1 cn by (simp add: nth_upd)
  moreover have "Column (rootColumnsZero node h' ! ?c) = 0" using rz cl l' by (simp add: nth_upd)
  moreover have w: "\<forall>b\<in>?S. b \<noteq> ?c \<longrightarrow>
      Column (rootColumnsZero node h' ! b) = shiftCol ?off (Column (h ! b))"
  proof (intro ballI impI)
    fix b assume b: "b \<in> ?S" "b \<noteq> ?c"
    then have "b \<noteq> node" using nt by auto
    then have "rootColumnsZero node h' ! b = h' ! b" using rz b by (simp add: nth_upd)
    then show "Column (rootColumnsZero node h' ! b) = shiftCol ?off (Column (h ! b))"
      using below[OF b] by simp
  qed
  moreover have "0 \<le> sint ?off \<longrightarrow>
      (\<forall>b\<in>?S. b \<noteq> ?c \<longrightarrow>
         sint (Column (rootColumnsZero node h' ! b)) =
           (if sint (Column (h ! b)) > sint ?off then sint (Column (h ! b)) - sint ?off
            else sint (Column (h ! b))) \<and>
         (0 \<le> sint (Column (h ! b)) \<longrightarrow> 0 \<le> sint (Column (rootColumnsZero node h' ! b))))"
    using w sint_shiftCol[of ?off] shiftCol_nonneg[of ?off] by simp
  ultimately show ?thesis by blast
qed

theorem root_columns_normalized_witness:
  "updateYamlFromStruct 0 bobRecord bobStore = Ok () bobMerged \<and>
   Kind (bobStore ! 0) = DocumentNode \<and> 0 < length bobStore \<and>
   Content (bobStore ! 0) = [rootOf bobTree] \<and> isTree bobStore bobTree \<and>
   0 \<notin> set (addrs bobTree) \<and> docfree bobStore (set (addrs bobTree)) \<and>
   Column (bobStore ! rootOf bobTree) = 1 \<and> Column (bobStore ! 3) = 7 \<and> Column (bobStore ! 2) = 1 \<and>
   Column (rootColumnsZero 0 bobMerged ! 0) = 0 \<and>
   Column (rootColumnsZero 0 bobMerged ! 1) = 0 \<and>
   Column (rootColumnsZero 0 bobMerged ! 3) = 6 \<and>
   Column (rootColumnsZero 0 bobMerged ! 2) = 1 \<and>
   sint (Column (rootColumnsZero 0 bobMerged ! 3)) = 7 - 1"
proof -
  have a: "Kind (bobStore ! 0) = DocumentNode" "0 < length bobStore"
    "Column (bobStore ! rootOf bobTree) = 1" "Column (bobStore ! 3) = 7" "Column (bobStore ! 2) = 1"
    "rootOf bobTree = 1" "3 \<in> set (addrs bobTree)" "2 \<in> set (addrs bobTree)"
    by (simp_all add: bobStore_def bobTree_def)
  note b = bob_tree
  note t = root_columns_normalized[OF bob_merge a(1,2), of bobTree]
  have r: "Column (rootColumnsZero 0 bobMerged ! 0) = 0"
    "Column (rootColumnsZero 0 bobMerged ! rootOf bobTree) = 0"
    "\<forall>b\<in>set (addrs bobTree). b \<noteq> rootOf bobTree \<longrightarrow>
        Column (rootColumnsZero 0 bobMerged ! b) =
          shiftCol (Column (bobStore ! rootOf bobTree)) (Column (bobStore ! b))"
    using t b by blast+
  have q: "\<forall>b\<in>set (addrs bobTree). b \<noteq> rootOf bobTree \<longrightarrow>
         sint (Column (rootColumnsZero 0 bobMerged ! b)) =
           (if sint (Column (bobStore ! b)) > sint (Column (bobStore ! rootOf bobTree))
            then sint (Column (bobStore ! b)) - sint (Column (bobStore ! rootOf bobTree))
            else sint (Column (bobStore ! b)))"
  proof -
    have "0 \<le> sint (Column (bobStore ! rootOf bobTree))" using a(3) by simp
    then show ?thesis using t b by blast
  qed
  have c: "Column (rootColumnsZero 0 bobMerged ! 3) = shiftCol 1 7"
    "Column (rootColumnsZero 0 bobMerged ! 2) = shiftCol 1 1"
    using r(3) a by auto
  have s3: "sint (Column (rootColumnsZero 0 bobMerged ! 3)) = 7 - 1" using q a by simp
  show ?thesis using r(1,2) c s3 a b bob_merge by (simp add: shiftCol_def)
qed

end
